theory Spec2Isabelle
  imports Complex_Main "HOL-Library.Log_Nat"
begin

section \<open>Values of the JSON library (class \<open>JSON::Value\<close> of \<open>JSONParser.h\<close>)\<close>

text \<open>
  Conventions of the embedding.
  \<^item> A \<open>long double\<close> payload is represented by the rational number it denotes; infinities
    and NaN, which the parser never produces, have no representation.
  \<^item> \<open>int\<close> values (indent, depth, cursor, lengths, line numbers) are mathematical integers:
    the source would need a text of 2 GiB or a tree nested \<open>2^31\<close> deep to overflow them.
  \<^item> \<open>long\<close> is the 64-bit type of LP64 platforms.
  \<^item> \<open>std::unordered_map\<close> is an association list with distinct keys, in the order in which
    the container enumerates its entries. C++ leaves that order unspecified; it results from
    the hash values of the keys and the history of the table. So two Objects are compared
    up to the order of their entries (\<open>same_tree\<close> below).
  \<^item> Everything a C++ expression can do besides returning is a value of \<open>failure\<close>: the three
    standard exceptions that occur, and undefined behaviour.
\<close>

datatype failure = invalid_argument | out_of_range | length_error | undefined_behaviour

datatype ValueType =
    ValueType_Object
  | ValueType_Array
  | ValueType_String
  | ValueType_Number
  | ValueType_Boolean
  | ValueType_Null
  | ValueType_Unknown

text \<open>The five private fields of the class, in the order of their declaration.\<close>

datatype Value =
  Value (type: ValueType) (obj: "(string \<times> Value) list") (arr: "Value list") (str: string) (num: rat)

definition Value_default :: Value where
  "Value_default = Value ValueType_Unknown [] [] [] 0"

definition Value_of_type :: "ValueType \<Rightarrow> Value" where
  "Value_of_type t = Value t [] [] [] 0"

definition makeObject :: "(string \<times> Value) list \<Rightarrow> Value" where
  "makeObject m = Value ValueType_Object m [] [] 0"

definition makeArray :: "Value list \<Rightarrow> Value" where
  "makeArray a = Value ValueType_Array [] a [] 0"

definition makeString :: "string \<Rightarrow> Value" where
  "makeString s = Value ValueType_String [] [] s 0"

definition makeNumber :: "rat \<Rightarrow> Value" where
  "makeNumber n = Value ValueType_Number [] [] [] n"

definition makeBoolean :: "bool \<Rightarrow> Value" where
  "makeBoolean b = (case makeNumber (if b then 1 else 0) of Value t m a s n \<Rightarrow> Value ValueType_Boolean m a s n)"

definition makeNull :: Value where
  "makeNull = Value_of_type ValueType_Null"

definition toObject :: "Value \<Rightarrow> (string \<times> Value) list" where
  "toObject v = obj v"

definition toArray :: "Value \<Rightarrow> Value list" where
  "toArray v = arr v"

definition toString :: "Value \<Rightarrow> string" where
  "toString v = str v"

definition toBoolean :: "Value \<Rightarrow> bool" where
  "toBoolean v = (num v \<noteq> 0)"

definition getType :: "Value \<Rightarrow> ValueType" where
  "getType v = type v"

text \<open>
  \<open>operator[](std::string)\<close> followed by an assignment through the returned reference, as in
  \<open>obj[name] = element\<close>: the entry of an existing key is overwritten where it stands, a new
  key gets an entry. Where the container enumerates a new entry is unspecified; it is put
  first here, which is where libstdc++ links a node whose bucket is empty.
\<close>

definition assign_entry :: "string \<Rightarrow> Value \<Rightarrow> (string \<times> Value) list \<Rightarrow> (string \<times> Value) list" where
  "assign_entry k x m =
     (if k \<in> fst ` set m then map (\<lambda>e. if fst e = k then (k, x) else e) m else (k, x) # m)"

definition assign_key :: "Value \<Rightarrow> string \<Rightarrow> Value \<Rightarrow> Value" where
  "assign_key v k x = (case v of Value t m a s n \<Rightarrow> Value t (assign_entry k x m) a s n)"

text \<open>
  \<open>operator[](int)\<close> is \<open>arr[idx]\<close> on the \<open>std::vector\<close>: no bounds check, so an index
  outside the vector (a negative \<open>int\<close> becomes a huge \<open>size_t\<close>) is undefined behaviour.
  The reference it returns is read with \<open>index_int\<close> and written with \<open>assign_index\<close>.
\<close>

definition index_int :: "Value \<Rightarrow> int \<Rightarrow> failure + Value" where
  "index_int v idx =
     (if 0 \<le> idx \<and> idx < int (length (arr v)) then Inr (arr v ! nat idx)
      else Inl undefined_behaviour)"

definition assign_index :: "Value \<Rightarrow> int \<Rightarrow> Value \<Rightarrow> failure + Value" where
  "assign_index v idx x =
     (if 0 \<le> idx \<and> idx < int (length (arr v))
      then Inr (case v of Value t m a s n \<Rightarrow> Value t m (a[nat idx := x]) s n)
      else Inl undefined_behaviour)"

definition pushToArray :: "Value \<Rightarrow> Value \<Rightarrow> Value" where
  "pushToArray v x =
     (if getType v = ValueType_Array then (case v of Value t m a s n \<Rightarrow> Value t m (a @ [x]) s n)
      else v)"

subsection \<open>Library conversions used by the rendering\<close>

text \<open>Decimal digits of a natural number, most significant first.\<close>

fun digits :: "nat \<Rightarrow> string" where
  "digits n =
     (if n < 10 then [''0123456789'' ! n]
      else digits (n div 10) @ [''0123456789'' ! (n mod 10)])"

declare digits.simps [simp del]

text \<open>\<open>std::to_string(long)\<close>, also the text \<open>operator<<\<close> writes for an \<open>int\<close>.\<close>

definition to_string_long :: "int \<Rightarrow> string" where
  "to_string_long n = (if n < 0 then CHR ''-'' # digits (nat (- n)) else digits (nat n))"

definition round_half_even :: "rat \<Rightarrow> int" where
  "round_half_even x =
     (let f = \<lfloor>x\<rfloor>; d = x - of_int f
      in if d < 1 / 2 then f else if 1 / 2 < d then f + 1 else if even f then f else f + 1)"

text \<open>
  \<open>std::to_string(long double)\<close> is defined (C++11 to C++23) as the text \<open>sprintf\<close> produces
  for \<open>%Lf\<close>: fixed notation with six digits after the point, the value rounded to nearest.
\<close>

definition to_string_ld :: "rat \<Rightarrow> string" where
  "to_string_ld x =
     (let m = nat (round_half_even (\<bar>x\<bar> * 1000000));
          frac = digits (m mod 1000000)
      in (if x < 0 then ''-'' else '''') @ digits (m div 1000000) @ ''.''
           @ replicate (6 - length frac) CHR ''0'' @ frac)"

text \<open>
  \<open>static_cast<long>(num)\<close> truncates towards zero; the conversion is undefined when the
  truncated value is not a \<open>long\<close>.
\<close>

definition static_cast_long :: "rat \<Rightarrow> failure + int" where
  "static_cast_long x =
     (let t = (if 0 \<le> x then \<lfloor>x\<rfloor> else \<lceil>x\<rceil>)
      in if - (2 ^ 63) \<le> t \<and> t < 2 ^ 63 then Inr t else Inl undefined_behaviour)"

text \<open>
  \<open>std::string(n, c)\<close> with an \<open>int\<close> count: a negative count converts to a \<open>size_t\<close> beyond
  \<open>max_size()\<close> and the constructor throws \<open>std::length_error\<close>.
\<close>

definition std_string :: "int \<Rightarrow> char \<Rightarrow> failure + string" where
  "std_string n c = (if n < 0 then Inl length_error else Inr (replicate (nat n) c))"

subsection \<open>\<open>Value::getRepresentation\<close>\<close>

text \<open>
  The two \<open>for\<close> loops are \<open>arrayRepr\<close> and \<open>objectRepr\<close>: they take the elements still to
  be visited and the text \<open>repr\<close> built so far. The test \<open>i != arr.size() - 1\<close>
  (\<open>std::next(it) != obj.end()\<close>) holds when elements remain after the current one.
\<close>

function getRepresentation :: "Value \<Rightarrow> int \<Rightarrow> int \<Rightarrow> failure + string"
  and arrayRepr :: "Value list \<Rightarrow> int \<Rightarrow> int \<Rightarrow> string \<Rightarrow> failure + string"
  and objectRepr :: "(string \<times> Value) list \<Rightarrow> int \<Rightarrow> int \<Rightarrow> string \<Rightarrow> failure + string"
where
  "getRepresentation v indent depth =
     (case type v of
        ValueType_Null \<Rightarrow> Inr ''null''
      | ValueType_Boolean \<Rightarrow> Inr (if toBoolean v then ''true'' else ''false'')
      | ValueType_String \<Rightarrow> Inr (CHR 0x22 # toString v @ [CHR 0x22])
      | ValueType_Number \<Rightarrow>
          (case static_cast_long (num v) of
             Inl e \<Rightarrow> Inl e
           | Inr lnum \<Rightarrow>
               Inr (if num v - of_int lnum = 0 then to_string_long lnum else to_string_ld (num v)))
      | ValueType_Array \<Rightarrow>
          (case arrayRepr (toArray v) indent depth ''['' of
             Inl e \<Rightarrow> Inl e
           | Inr repr \<Rightarrow>
               (case std_string (indent * depth) CHR '' '' of
                  Inl e \<Rightarrow> Inl e
                | Inr sp \<Rightarrow> Inr ((if 0 < indent then repr @ [CHR 0x0A] else repr) @ sp @ '']'')))
      | ValueType_Object \<Rightarrow>
          (case objectRepr (toObject v) indent depth ''{'' of
             Inl e \<Rightarrow> Inl e
           | Inr repr \<Rightarrow>
               (case std_string (indent * depth) CHR '' '' of
                  Inl e \<Rightarrow> Inl e
                | Inr sp \<Rightarrow> Inr ((if 0 < indent then repr @ [CHR 0x0A] else repr) @ sp @ ''}'')))
      | ValueType_Unknown \<Rightarrow> Inr '''')"
| "arrayRepr [] indent depth repr = Inr repr"
| "arrayRepr (x # xs) indent depth repr =
     (case (if 0 < indent
            then (case std_string (indent * (depth + 1)) CHR '' '' of
                    Inl e \<Rightarrow> Inl e
                  | Inr sp \<Rightarrow> Inr (repr @ [CHR 0x0A] @ sp))
            else Inr repr) of
        Inl e \<Rightarrow> Inl e
      | Inr repr1 \<Rightarrow>
          (case getRepresentation x indent (depth + 1) of
             Inl e \<Rightarrow> Inl e
           | Inr s \<Rightarrow> arrayRepr xs indent depth (repr1 @ s @ (if xs \<noteq> [] then '','' else ''''))))"
| "objectRepr [] indent depth repr = Inr repr"
| "objectRepr (kv # kvs) indent depth repr =
     (case (if 0 < indent
            then (case std_string (indent * (depth + 1)) CHR '' '' of
                    Inl e \<Rightarrow> Inl e
                  | Inr sp \<Rightarrow> Inr (repr @ [CHR 0x0A] @ sp))
            else Inr repr) of
        Inl e \<Rightarrow> Inl e
      | Inr repr1 \<Rightarrow>
          (let repr2 = repr1 @ [CHR 0x22] @ fst kv @ [CHR 0x22] @ '':'';
               repr3 = (if 0 < indent then repr2 @ '' '' else repr2)
           in case getRepresentation (snd kv) indent (depth + 1) of
                Inl e \<Rightarrow> Inl e
              | Inr s \<Rightarrow> objectRepr kvs indent depth (repr3 @ s @ (if kvs \<noteq> [] then '','' else ''''))))"
  by pat_completeness auto

lemma size_arr_less: "size_list size (arr v) < size v"
  by (cases v) simp

lemma size_obj_less: "size_list (size_prod (\<lambda>_. 0) size) (obj v) < size v"
  by (cases v) simp

lemma size_snd_le: "size (snd kv) \<le> size_prod (\<lambda>_. 0) size kv"
  by (cases kv) simp

termination getRepresentation
proof (relation "measure (\<lambda>x. case x of
    Inl (v, _) \<Rightarrow> 2 * size v
  | Inr (Inl (vs, _)) \<Rightarrow> 2 * size_list size vs + 1
  | Inr (Inr (kvs, _)) \<Rightarrow> 2 * size_list (size_prod (\<lambda>_. 0) size) kvs + 1)", goal_cases)
  case 1
  show ?case by simp
next
  case (2 v indent depth)
  show ?case using size_obj_less [of v] by (simp add: toObject_def)
next
  case (3 v indent depth)
  show ?case using size_arr_less [of v] by (simp add: toArray_def)
next
  case (4 x xs indent depth repr)
  show ?case by simp
next
  case (5 x xs indent depth repr)
  show ?case by simp
next
  case (6 kv kvs indent depth repr)
  show ?case using size_snd_le [of kv] by simp
next
  case (7 kv kvs indent depth repr)
  show ?case by simp
qed

declare getRepresentation.simps [simp del]

section \<open>The parser (class \<open>JSON::Parser\<close>)\<close>

subsection \<open>\<open>std::stod\<close>\<close>

text \<open>
  \<open>std::stod\<close> calls \<open>strtod\<close> and throws \<open>std::invalid_argument\<close> when no conversion could
  be performed, \<open>std::out_of_range\<close> when \<open>strtod\<close> reports \<open>ERANGE\<close>. \<open>parseNumber\<close> passes
  it texts over the characters \<open>0\<close> to \<open>9\<close>, \<open>+\<close>, \<open>-\<close>, \<open>.\<close> and \<open>e\<close>, so only the decimal
  form of the subject sequence is modelled: an optional sign, digits with an optional point
  (at least one digit), and an exponent that counts only when it has a digit. Text after
  the subject sequence is ignored. The result is the \<open>double\<close> (binary64) nearest to the
  decimal value, ties to even. \<open>ERANGE\<close> is reported for a result beyond the largest
  \<open>double\<close>, and for an inexact result that is tiny; glibc on x86-64 decides tininess after
  rounding: the value, rounded to 53 bits with no bound on the exponent, is below the
  smallest normal \<open>double\<close> \<open>2^-1022\<close>.
\<close>

definition isdigit :: "char \<Rightarrow> bool" where
  "isdigit c = (c \<in> set ''0123456789'')"

definition digit_value :: "char \<Rightarrow> nat" where
  "digit_value c = of_char c - 48"

definition decimal_value :: "string \<Rightarrow> nat" where
  "decimal_value s = foldl (\<lambda>n c. 10 * n + digit_value c) 0 s"

definition pow_int :: "rat \<Rightarrow> int \<Rightarrow> rat" where
  "pow_int b e = (if 0 \<le> e then b ^ nat e else 1 / b ^ nat (- e))"

definition exponent_part :: "string \<Rightarrow> int" where
  "exponent_part s =
     (if s \<noteq> [] \<and> (hd s = CHR ''e'' \<or> hd s = CHR ''E'')
      then (let r = tl s;
                neg = (r \<noteq> [] \<and> hd r = CHR ''-'');
                r1 = (if r \<noteq> [] \<and> (hd r = CHR ''+'' \<or> hd r = CHR ''-'') then tl r else r);
                ds = takeWhile isdigit r1
            in if ds = [] then 0
               else if neg then - int (decimal_value ds) else int (decimal_value ds))
      else 0)"

definition strtod_decimal :: "string \<Rightarrow> rat option" where
  "strtod_decimal s =
     (let neg = (s \<noteq> [] \<and> hd s = CHR ''-'');
          s1 = (if s \<noteq> [] \<and> (hd s = CHR ''+'' \<or> hd s = CHR ''-'') then tl s else s);
          ip = takeWhile isdigit s1;
          r1 = dropWhile isdigit s1;
          point = (r1 \<noteq> [] \<and> hd r1 = CHR ''.'');
          fp = (if point then takeWhile isdigit (tl r1) else []);
          r2 = (if point then dropWhile isdigit (tl r1) else r1)
      in if ip = [] \<and> fp = [] then None
         else Some ((if neg then - 1 else 1) * of_nat (decimal_value (ip @ fp))
                      * pow_int 10 (exponent_part r2 - int (length fp))))"

text \<open>The exponent \<open>e\<close> with \<open>2^e \<le> x < 2^(e+1)\<close>, for a positive \<open>x\<close>.\<close>

definition binade :: "rat \<Rightarrow> int" where
  "binade x =
     (if 1 \<le> x then int (floorlog 2 (nat \<lfloor>x\<rfloor>)) - 1
      else - int (floorlog 2 (nat (\<lceil>1 / x\<rceil> - 1))))"

definition to_double :: "rat \<Rightarrow> failure + rat" where
  "to_double x =
     (if x = 0 then Inr 0
      else if 2 ^ 1024 - 2 ^ 970 \<le> \<bar>x\<bar> then Inl out_of_range
      else (let u = pow_int 2 (max (binade \<bar>x\<bar>) (- 1022) - 52);
                r = of_int (round_half_even (\<bar>x\<bar> / u)) * u;
                w = pow_int 2 (binade \<bar>x\<bar> - 52);
                tiny = (of_int (round_half_even (\<bar>x\<bar> / w)) * w < pow_int 2 (- 1022))
            in if tiny \<and> r \<noteq> \<bar>x\<bar> then Inl out_of_range
               else Inr (if x < 0 then - r else r)))"

definition stod :: "string \<Rightarrow> failure + rat" where
  "stod s = (case strtod_decimal s of None \<Rightarrow> Inl invalid_argument | Some x \<Rightarrow> to_double x)"

text \<open>
  \<open>std::string::substr(pos, n)\<close> with \<open>int\<close> arguments: \<open>std::out_of_range\<close> when \<open>pos\<close>
  (a negative one is a huge \<open>size_t\<close>) is beyond the size, else at most \<open>n\<close> characters
  from \<open>pos\<close>.
\<close>

definition substr :: "string \<Rightarrow> int \<Rightarrow> int \<Rightarrow> failure + string" where
  "substr s pos n =
     (if pos < 0 \<or> int (length s) < pos then Inl out_of_range
      else Inr (take (nat n) (drop (nat pos) s)))"

subsection \<open>Parser state and lexical helpers\<close>

text \<open>
  The private fields of the class, and \<open>cout\<close>: the lines written to \<open>std::cout\<close>, oldest
  first. A member function takes the parser and returns it as it has left it.
\<close>

record Parser =
  content :: string
  currIdx :: int
  currChar :: char
  currLine :: int
  isOk :: bool
  cout :: "string list"

text \<open>
  \<open>currIdx < content.size()\<close> compares as \<open>size_t\<close>: a negative index is not below the size.
\<close>

definition in_content :: "Parser \<Rightarrow> bool" where
  "in_content p = (0 \<le> currIdx p \<and> currIdx p < int (length (content p)))"

definition advance :: "Parser \<Rightarrow> Parser" where
  "advance p =
     (let p1 = p\<lparr>currIdx := currIdx p + 1\<rparr>
      in if in_content p1 then p1\<lparr>currChar := content p1 ! nat (currIdx p1)\<rparr> else p1)"

definition isEOF :: "Parser \<Rightarrow> bool" where
  "isEOF p = (\<not> in_content p)"

definition isWhitespace :: "char \<Rightarrow> bool" where
  "isWhitespace c = (c = CHR 0x20 \<or> c = CHR 0x0A \<or> c = CHR 0x0D \<or> c = CHR 0x09)"

text \<open>The constructor: the field initialisers, then one \<open>advance\<close>.\<close>

definition new_Parser :: "string \<Rightarrow> Parser" where
  "new_Parser text =
     advance \<lparr>content = text, currIdx = - 1, currChar = CHR 0x00, currLine = 1, isOk = True,
              cout = []\<rparr>"

function skipWhitespace :: "Parser \<Rightarrow> Parser" where
  "skipWhitespace p =
     (if \<not> isEOF p \<and> isWhitespace (currChar p)
      then skipWhitespace
             (advance (if currChar p = CHR 0x0A then p\<lparr>currLine := currLine p + 1\<rparr> else p))
      else p)"
  by pat_completeness auto

termination
  by (relation "measure (\<lambda>p. nat (int (length (content p)) - currIdx p))")
    (auto simp: isEOF_def in_content_def advance_def Let_def)

declare skipWhitespace.simps [simp del]

text \<open>The loop of \<open>validateIdentifier\<close>; \<open>n\<close> is \<open>identifier.size()\<close>.\<close>

function identifierLoop :: "Parser \<Rightarrow> int \<Rightarrow> nat \<Rightarrow> Parser \<times> int" where
  "identifierLoop p len n =
     (if \<not> isEOF p \<and> len \<noteq> int n then identifierLoop (advance p) (len + 1) n else (p, len))"
  by pat_completeness auto

termination
  by (relation "measure (\<lambda>(p, len, n). nat (int (length (content p)) - currIdx p))")
    (auto simp: isEOF_def in_content_def advance_def Let_def)

declare identifierLoop.simps [simp del]

definition validateIdentifier :: "Parser \<Rightarrow> string \<Rightarrow> (failure \<times> Parser) + (bool \<times> Parser)" where
  "validateIdentifier p identifier =
     (let start = currIdx p;
          (p1, len) = identifierLoop p 0 (length identifier)
      in case substr (content p1) start len of
           Inl e \<Rightarrow> Inl (e, p1)
         | Inr s \<Rightarrow> Inr (s = identifier, p1))"

definition reportError :: "Parser \<Rightarrow> string \<Rightarrow> Parser" where
  "reportError p msg =
     p\<lparr>cout := cout p @ [''[ERROR] At line '' @ to_string_long (currLine p) @ '': '' @ msg @ [CHR 0x0A]],
       isOk := False\<rparr>"

definition consume :: "Parser \<Rightarrow> char \<Rightarrow> string \<Rightarrow> bool \<times> Parser" where
  "consume p c msg = (if currChar p \<noteq> c then (False, reportError p msg) else (True, advance p))"

subsection \<open>\<open>parseString\<close> and \<open>parseNumber\<close>\<close>

function stringLoop :: "Parser \<Rightarrow> int \<Rightarrow> Parser \<times> int" where
  "stringLoop p len =
     (if \<not> isEOF p \<and> currChar p \<noteq> CHR 0x22 then stringLoop (advance p) (len + 1) else (p, len))"
  by pat_completeness auto

termination
  by (relation "measure (\<lambda>(p, len). nat (int (length (content p)) - currIdx p))")
    (auto simp: isEOF_def in_content_def advance_def Let_def)

declare stringLoop.simps [simp del]

definition parseString :: "Parser \<Rightarrow> (failure \<times> Parser) + (string \<times> Parser)" where
  "parseString p =
     (let p1 = (if currChar p = CHR 0x22 then advance p else p);
          start = currIdx p1;
          (p2, len) = stringLoop p1 0;
          p3 = snd (consume p2 CHR 0x22 (''Expected '' @ [CHR 0x27, CHR 0x22, CHR 0x27] @ '' for string end''))
      in case substr (content p3) start len of
           Inl e \<Rightarrow> Inl (e, p3)
         | Inr s \<Rightarrow> Inr (s, p3))"

definition numberChar :: "char \<Rightarrow> bool" where
  "numberChar c =
     (isdigit c \<or> c = CHR ''+'' \<or> c = CHR ''-'' \<or> c = CHR ''.'' \<or> c = CHR ''e'')"

text \<open>
  The scanning loop of \<open>parseNumber\<close> with its locals \<open>len\<close>, \<open>floatingPoint\<close> and
  \<open>exponent\<close>; a \<open>break\<close> returns the state after \<open>reportError\<close>.
\<close>

function numberLoop :: "Parser \<Rightarrow> int \<Rightarrow> bool \<Rightarrow> bool \<Rightarrow> Parser \<times> int" where
  "numberLoop p len floatingPoint exponent =
     (if \<not> isEOF p \<and> numberChar (currChar p)
      then if currChar p = CHR ''.'' \<and> floatingPoint
           then (reportError p ''invalid number: duplicate floating point'', len)
           else if currChar p = CHR ''e'' \<and> exponent
           then (reportError p ''invalid number: duplicate exponent symbol'', len)
           else numberLoop (advance p) (len + 1) (floatingPoint \<or> currChar p = CHR ''.'')
                  (exponent \<or> currChar p = CHR ''e'')
      else (p, len))"
  by pat_completeness auto

termination
  by (relation "measure (\<lambda>(p, len, fp, ex). nat (int (length (content p)) - currIdx p))")
    (auto simp: isEOF_def in_content_def advance_def Let_def)

declare numberLoop.simps [simp del]

text \<open>
  The \<open>try\<close> block holds \<open>substr\<close> and \<open>std::stod\<close>; its handler catches
  \<open>std::out_of_range\<close> only, writes the warning and falls through to \<open>makeNumber(0)\<close>.
  Any other exception leaves \<open>parseNumber\<close>.
\<close>

definition parseNumber :: "Parser \<Rightarrow> (failure \<times> Parser) + (Value \<times> Parser)" where
  "parseNumber p =
     (let start = currIdx p;
          (p1, len) = numberLoop p 0 False False
      in case (case substr (content p1) start len of Inl e \<Rightarrow> Inl e | Inr s \<Rightarrow> stod s) of
           Inr d \<Rightarrow> Inr (makeNumber d, p1)
         | Inl e \<Rightarrow>
             if e = out_of_range
             then Inr (makeNumber 0,
                       p1\<lparr>cout := cout p1 @ [''[WARNING] At line '' @ to_string_long (currLine p1)
                                                @ '': number overflow'' @ [CHR 0x0A]]\<rparr>)
             else Inl (e, p1))"

subsection \<open>The recursive descent\<close>

text \<open>
  \<open>afterSwitch\<close> is the end of \<open>parseElement\<close>, reached by every \<open>break\<close> of the switch: the
  error report and \<open>return Value()\<close>. \<open>objectLoop\<close> and \<open>arrayLoop\<close> are the \<open>while\<close> loops of
  \<open>parseObject\<close> and \<open>parseArray\<close>, with the local \<open>obj\<close> (\<open>arr\<close>) as second argument;
  a \<open>break\<close> returns from the loop. An exception leaves every caller at once, with the
  parser as it stood.
\<close>

definition quoted :: "char \<Rightarrow> string" where
  "quoted c = [CHR 0x27, c, CHR 0x27]"

definition afterSwitch :: "Parser \<Rightarrow> (failure \<times> Parser) + (Value \<times> Parser)" where
  "afterSwitch p = Inr (Value_default, reportError p (''Unexpected character: '' @ quoted (currChar p)))"

function (domintros) parseElement :: "Parser \<Rightarrow> (failure \<times> Parser) + (Value \<times> Parser)"
  and parseObject :: "Parser \<Rightarrow> (failure \<times> Parser) + (Value \<times> Parser)"
  and objectLoop :: "Parser \<Rightarrow> Value \<Rightarrow> (failure \<times> Parser) + (Value \<times> Parser)"
  and parseArray :: "Parser \<Rightarrow> (failure \<times> Parser) + (Value \<times> Parser)"
  and arrayLoop :: "Parser \<Rightarrow> Value list \<Rightarrow> (failure \<times> Parser) + (Value list \<times> Parser)"
where
  "parseElement p =
     (if currChar p = CHR ''{'' then parseObject p
      else if currChar p = CHR ''['' then parseArray p
      else if currChar p = CHR 0x22
      then (case parseString p of Inl e \<Rightarrow> Inl e | Inr (s, p1) \<Rightarrow> Inr (makeString s, p1))
      else if currChar p = CHR ''t''
      then (case validateIdentifier p ''true'' of
              Inl e \<Rightarrow> Inl e
            | Inr (ok, p1) \<Rightarrow> if ok then Inr (makeBoolean True, p1) else afterSwitch p1)
      else if currChar p = CHR ''f''
      then (case validateIdentifier p ''false'' of
              Inl e \<Rightarrow> Inl e
            | Inr (ok, p1) \<Rightarrow> if ok then Inr (makeBoolean False, p1) else afterSwitch p1)
      else if currChar p = CHR ''n''
      then (case validateIdentifier p ''null'' of
              Inl e \<Rightarrow> Inl e
            | Inr (ok, p1) \<Rightarrow> if ok then Inr (makeNull, p1) else afterSwitch p1)
      else if currChar p = CHR ''+'' \<or> currChar p = CHR ''-'' \<or> isdigit (currChar p)
      then parseNumber p
      else if isWhitespace (currChar p) then afterSwitch (skipWhitespace p)
      else afterSwitch p)"
| "parseObject p =
     (let p1 = skipWhitespace (if currChar p = CHR ''{'' then advance p else p)
      in case objectLoop p1 (makeObject []) of
           Inl e \<Rightarrow> Inl e
         | Inr (object, p2) \<Rightarrow>
             Inr (object, snd (consume p2 CHR ''}'' (''Expected '' @ quoted CHR ''}'' @ '' for object end''))))"
| "objectLoop p object =
     (if \<not> isEOF p \<and> currChar p \<noteq> CHR ''}''
      then (case parseString (skipWhitespace p) of
              Inl e \<Rightarrow> Inl e
            | Inr (name, p1) \<Rightarrow>
                (let p2 = skipWhitespace p1
                 in if currChar p2 \<noteq> CHR '':''
                    then Inr (object, reportError p2 (''Expected '' @ quoted CHR '':'' @ '' for value assignment''))
                    else (case parseElement (skipWhitespace (advance p2)) of
                            Inl e \<Rightarrow> Inl e
                          | Inr (element, p3) \<Rightarrow>
                              (let p4 = skipWhitespace p3;
                                   object1 = assign_key object name element
                               in if currChar p4 \<noteq> CHR '','' then Inr (object1, p4)
                                  else objectLoop (advance p4) object1))))
      else Inr (object, p))"
| "parseArray p =
     (let p1 = skipWhitespace (if currChar p = CHR ''['' then advance p else p)
      in case arrayLoop p1 [] of
           Inl e \<Rightarrow> Inl e
         | Inr (array, p2) \<Rightarrow>
             Inr (makeArray array, snd (consume p2 CHR '']'' (''Expected '' @ quoted CHR '']'' @ '' for array end''))))"
| "arrayLoop p array =
     (if \<not> isEOF p \<and> currChar p \<noteq> CHR '']''
      then (case parseElement (skipWhitespace p) of
              Inl e \<Rightarrow> Inl e
            | Inr (element, p1) \<Rightarrow>
                (let p2 = skipWhitespace p1
                 in if currChar p2 \<noteq> CHR '','' then Inr (array @ [element], p2)
                    else arrayLoop (advance p2) (array @ [element])))
      else Inr (array, p))"
  by pat_completeness auto


text \<open>
  Termination: no call moves the cursor back, a loop passes a separator before it
  iterates, and a nested value starts with a bracket that is consumed. \<open>follows p q\<close>
  says that \<open>q\<close> can come after \<open>p\<close> in a run: the same text, the cursor not further
  left, the failure flag still set if it was, and \<open>currChar\<close> still in step with the cursor
  if it was.
\<close>

text \<open>
  \<open>synced p\<close>: the text is not empty and \<open>currChar\<close> is the character a run of \<open>advance\<close>
  leaves at the cursor, that is the character under it, or the last one of the text once
  the cursor is past the end. The constructor establishes it on a non-empty text and no
  function of the parser breaks it.
\<close>

definition synced :: "Parser \<Rightarrow> bool" where
  "synced p =
     (content p \<noteq> [] \<and> 0 \<le> currIdx p
      \<and> currChar p = content p ! min (nat (currIdx p)) (length (content p) - 1))"

definition follows :: "Parser \<Rightarrow> Parser \<Rightarrow> bool" where
  "follows p q =
     (content q = content p \<and> currIdx p \<le> currIdx q \<and> (isOk p \<or> \<not> isOk q)
      \<and> (synced q \<or> \<not> synced p))"

definition remaining :: "Parser \<Rightarrow> nat" where
  "remaining p = nat (int (length (content p)) - currIdx p)"

lemma follows_refl [simp]: "follows p p"
  by (simp add: follows_def)

lemma follows_trans: "follows p q \<Longrightarrow> follows q r \<Longrightarrow> follows p r"
  by (auto simp: follows_def)

lemma synced_advance: "synced p \<Longrightarrow> synced (advance p)"
proof -
  assume p: "synced p"
  show ?thesis
  proof (cases "currIdx p + 1 < int (length (content p))")
    case True
    then have "min (nat (currIdx p + 1)) (length (content p) - 1) = nat (currIdx p + 1)"
      by simp
    then show ?thesis
      using p True by (simp add: synced_def advance_def in_content_def Let_def)
  next
    case False
    then have "min (nat (currIdx p + 1)) (length (content p) - 1)
        = min (nat (currIdx p)) (length (content p) - 1)"
      using p by (auto simp: min_def synced_def)
    then show ?thesis
      using p False by (simp add: synced_def advance_def in_content_def Let_def)
  qed
qed

lemma follows_advance [simp]: "follows p (advance p)"
  using synced_advance [of p] by (auto simp: follows_def advance_def Let_def)

lemma follows_reportError [simp]: "follows p (reportError p msg)"
  by (auto simp: follows_def reportError_def synced_def)

lemma follows_line [simp]: "follows p (p\<lparr>currLine := n\<rparr>)"
  by (auto simp: follows_def synced_def)

lemma follows_cout [simp]: "follows p (p\<lparr>cout := out\<rparr>)"
  by (auto simp: follows_def synced_def)

lemma follows_consume [simp]: "follows p (snd (consume p c msg))"
  by (simp add: consume_def)

lemma follows_skipWhitespace [simp]: "follows p (skipWhitespace p)"
proof (induction p rule: skipWhitespace.induct)
  case (1 p)
  show ?case
  proof (cases "\<not> isEOF p \<and> isWhitespace (currChar p)")
    case True
    let ?q = "advance (if currChar p = CHR 0x0A then p\<lparr>currLine := currLine p + 1\<rparr> else p)"
    have "follows p ?q"
      by (auto intro: follows_trans [OF follows_line follows_advance])
    moreover have "follows ?q (skipWhitespace ?q)"
      using 1 True by simp
    ultimately show ?thesis
      using True by (subst skipWhitespace.simps) (auto intro: follows_trans)
  next
    case False
    then show ?thesis by (subst skipWhitespace.simps) auto
  qed
qed

lemma follows_skipWhitespaceD: "follows (skipWhitespace p) q \<Longrightarrow> follows p q"
  by (rule follows_trans [OF follows_skipWhitespace])

lemma follows_advanceD: "follows (advance p) q \<Longrightarrow> follows p q"
  by (rule follows_trans [OF follows_advance])

lemma follows_skipWhitespaceI: "follows p q \<Longrightarrow> follows p (skipWhitespace q)"
  by (rule follows_trans [OF _ follows_skipWhitespace])

lemma follows_advanceI: "follows p q \<Longrightarrow> follows p (advance q)"
  by (rule follows_trans [OF _ follows_advance])

lemma follows_stringLoop: "follows p (fst (stringLoop p len))"
proof (induction p len rule: stringLoop.induct)
  case (1 p len)
  show ?case
  proof (cases "\<not> isEOF p \<and> currChar p \<noteq> CHR 0x22")
    case True
    then have "follows (advance p) (fst (stringLoop (advance p) (len + 1)))"
      using 1 by simp
    then show ?thesis
      using True by (subst stringLoop.simps) (auto intro: follows_trans [OF follows_advance])
  next
    case False
    then show ?thesis by (subst stringLoop.simps) auto
  qed
qed

lemma follows_identifierLoop: "follows p (fst (identifierLoop p len n))"
proof (induction p len n rule: identifierLoop.induct)
  case (1 p len n)
  show ?case
  proof (cases "\<not> isEOF p \<and> len \<noteq> int n")
    case True
    then have "follows (advance p) (fst (identifierLoop (advance p) (len + 1) n))"
      using 1 by simp
    then show ?thesis
      using True by (subst identifierLoop.simps) (auto intro: follows_trans [OF follows_advance])
  next
    case False
    then show ?thesis by (subst identifierLoop.simps) auto
  qed
qed

lemma follows_numberLoop: "follows p (fst (numberLoop p len fp ex))"
proof (induction p len fp ex rule: numberLoop.induct)
  case (1 p len fp ex)
  show ?case
  proof (cases "\<not> isEOF p \<and> numberChar (currChar p)")
    case True
    note inside = this
    show ?thesis
    proof (cases "(currChar p = CHR ''.'' \<and> fp) \<or> (currChar p = CHR ''e'' \<and> ex)")
      case True
      then show ?thesis using inside by (subst numberLoop.simps) auto
    next
      case False
      then have "follows (advance p)
          (fst (numberLoop (advance p) (len + 1) (fp \<or> currChar p = CHR ''.'') (ex \<or> currChar p = CHR ''e'')))"
        using 1 inside by blast
      then show ?thesis
        using inside False
        by (subst numberLoop.simps) (auto intro: follows_trans [OF follows_advance])
    qed
  next
    case False
    then show ?thesis by (subst numberLoop.simps) auto
  qed
qed

text \<open>The parser as a call has left it, whether it returned or threw.\<close>

definition final :: "(failure \<times> Parser) + ('a \<times> Parser) \<Rightarrow> Parser" where
  "final r = (case r of Inl (e, p) \<Rightarrow> p | Inr (x, p) \<Rightarrow> p)"

lemma final_simps [simp]: "final (Inl e) = snd e" "final (Inr x) = snd x"
  by (simp_all add: final_def split: prod.splits)

lemma follows_parseString: "follows p (final (parseString p))"
proof -
  obtain p2 len where loop: "stringLoop (if currChar p = CHR 0x22 then advance p else p) 0 = (p2, len)"
    by (cases "stringLoop (if currChar p = CHR 0x22 then advance p else p) 0")
  have "follows (if currChar p = CHR 0x22 then advance p else p) p2"
    using follows_stringLoop [of "if currChar p = CHR 0x22 then advance p else p" 0] loop by simp
  then have "follows p p2"
    by (auto intro: follows_trans [OF follows_advance] split: if_splits)
  then show ?thesis
    using loop
    by (auto simp: parseString_def Let_def split: sum.splits intro: follows_trans [OF _ follows_consume])
qed

lemma follows_validateIdentifier: "follows p (final (validateIdentifier p ident))"
  using follows_identifierLoop [of p 0 "length ident"]
  by (auto simp: validateIdentifier_def Let_def split: sum.splits prod.splits)

lemma follows_parseNumber: "follows p (final (parseNumber p))"
proof -
  obtain p1 len where loop: "numberLoop p 0 False False = (p1, len)"
    by (cases "numberLoop p 0 False False")
  have p1: "follows p p1"
    using follows_numberLoop [of p 0 False False] loop by simp
  have "follows p (p1\<lparr>cout := out\<rparr>)" for out
    by (rule follows_trans [OF p1]) simp
  then show ?thesis
    using loop p1 by (auto simp: parseNumber_def Let_def split: sum.splits)
qed

lemma follows_afterSwitch [simp]: "follows p (final (afterSwitch p))"
  by (simp add: afterSwitch_def)

lemma remaining_follows: "follows p q \<Longrightarrow> remaining q \<le> remaining p"
  by (auto simp: follows_def remaining_def)

lemma remaining_advance_less: "follows p q \<Longrightarrow> \<not> isEOF p \<Longrightarrow> remaining (advance q) < remaining p"
  by (auto simp: follows_def remaining_def isEOF_def in_content_def advance_def Let_def)


lemma follows_final_case:
  "follows p (final r) \<Longrightarrow> follows p (final (case r of Inl e \<Rightarrow> Inl e | Inr (x, q) \<Rightarrow> Inr (f x, q)))"
  by (auto simp: final_def split: sum.splits prod.splits)

lemma follows_parse_partial:
  shows "parseElement_parseObject_objectLoop_parseArray_arrayLoop_dom (Inl (Inl p))
      \<Longrightarrow> follows p (final (parseElement p))"
    and "parseElement_parseObject_objectLoop_parseArray_arrayLoop_dom (Inl (Inr p1))
      \<Longrightarrow> follows p1 (final (parseObject p1))"
    and "parseElement_parseObject_objectLoop_parseArray_arrayLoop_dom (Inr (Inl (p2, object)))
      \<Longrightarrow> follows p2 (final (objectLoop p2 object))"
    and "parseElement_parseObject_objectLoop_parseArray_arrayLoop_dom (Inr (Inr (Inl p3)))
      \<Longrightarrow> follows p3 (final (parseArray p3))"
    and "parseElement_parseObject_objectLoop_parseArray_arrayLoop_dom (Inr (Inr (Inr (p4, array))))
      \<Longrightarrow> follows p4 (final (arrayLoop p4 array))"
proof (induct rule: parseElement_parseObject_objectLoop_parseArray_arrayLoop.pinduct)
  case (1 p)
  have str: "follows p (final (parseString p))" by (rule follows_parseString)
  have idt: "\<And>s. follows p (final (validateIdentifier p s))" by (rule follows_validateIdentifier)
  have num: "follows p (final (parseNumber p))" by (rule follows_parseNumber)
  have aft: "\<And>q. follows p q \<Longrightarrow> follows p (final (afterSwitch q))"
    by (simp add: afterSwitch_def follows_trans [OF _ follows_reportError])
  have idt2: "follows p (final (case validateIdentifier p s of
              Inl e \<Rightarrow> Inl e
            | Inr (ok, p1) \<Rightarrow> if ok then Inr (v, p1) else afterSwitch p1))" for s v
  proof (cases "validateIdentifier p s")
    case (Inl a)
    then show ?thesis using idt [of s] by (cases a) simp
  next
    case (Inr b)
    obtain ok q where b: "b = (ok, q)" by (cases b)
    have "follows p q" using idt [of s] Inr b by simp
    then show ?thesis using Inr b aft [of q] by simp
  qed
  show ?case
    using 1 str num aft idt2
    by (simp add: parseElement.psimps follows_final_case)
next
  case (2 p)
  let ?q = "skipWhitespace (if currChar p = CHR ''{'' then advance p else p)"
  have a: "follows p ?q"
    by (rule follows_skipWhitespaceI) (simp add: follows_advanceI)
  have "follows ?q (final (objectLoop ?q (makeObject [])))"
    using 2(2) [OF refl] .
  with a have b: "follows p (final (objectLoop ?q (makeObject [])))"
    by (rule follows_trans)
  show ?case
  proof (cases "objectLoop ?q (makeObject [])")
    case (Inl e)
    then show ?thesis using b by (simp add: parseObject.psimps [OF 2(1)] Let_def)
  next
    case (Inr c)
    obtain x q1 where c: "c = (x, q1)" by (cases c)
    have q1: "follows p q1" using b Inr c by simp
    have "follows p (snd (consume q1 c0 msg))" for c0 msg
      by (rule follows_trans [OF q1]) simp
    then show ?thesis using Inr c by (simp add: parseObject.psimps [OF 2(1)] Let_def)
  qed
next
  case (3 p object)
  show ?case
  proof (cases "\<not> isEOF p \<and> currChar p \<noteq> CHR ''}''")
    case False
    then show ?thesis by (auto simp: objectLoop.psimps [OF 3(1)])
  next
    case True
    note enter = this
    have s1: "follows p (final (parseString (skipWhitespace p)))"
      by (rule follows_skipWhitespaceD) (rule follows_parseString)
    show ?thesis
    proof (cases "parseString (skipWhitespace p)")
      case (Inl e)
      then show ?thesis
        using enter s1 by (simp add: objectLoop.psimps [OF 3(1)])
    next
      case (Inr b)
      note str = this
      obtain name q1 where b: "b = (name, q1)" by (cases b)
      have f1: "follows p q1"
        using s1 str b by simp
      let ?q2 = "skipWhitespace q1"
      have f2: "follows p ?q2"
        using f1 by (rule follows_skipWhitespaceI)
      show ?thesis
      proof (cases "currChar ?q2 \<noteq> CHR '':''")
        case True
        have "follows p (reportError ?q2 (''Expected '' @ quoted CHR '':'' @ '' for value assignment''))"
          by (rule follows_trans [OF f2]) simp
        then show ?thesis
          using enter str b True by (simp add: objectLoop.psimps [OF 3(1)] Let_def)
      next
        case False
        note colon = this
        let ?q3 = "skipWhitespace (advance ?q2)"
        have f3: "follows p ?q3"
          by (rule follows_skipWhitespaceI [OF follows_advanceI [OF f2]])
        have ih1: "follows ?q3 (final (parseElement ?q3))"
          using 3(2) [OF enter str b [symmetric] refl colon] .
        have f4: "follows p (final (parseElement ?q3))"
          using f3 ih1 by (rule follows_trans)
        show ?thesis
        proof (cases "parseElement ?q3")
          case (Inl e)
          then show ?thesis
            using enter str b colon f4 by (simp add: objectLoop.psimps [OF 3(1)] Let_def)
        next
          case (Inr c)
          note elem = this
          obtain element q4 where c: "c = (element, q4)" by (cases c)
          let ?q5 = "skipWhitespace q4"
          have f5: "follows p ?q5"
            using f4 elem c by (simp add: follows_skipWhitespaceI)
          show ?thesis
          proof (cases "currChar ?q5 \<noteq> CHR '',''")
            case True
            then show ?thesis
              using enter str b colon elem c f5
              by (simp add: objectLoop.psimps [OF 3(1)] Let_def)
          next
            case False
            note comma = this
            have ih2: "follows (advance ?q5)
                (final (objectLoop (advance ?q5) (assign_key object name element)))"
              using 3(3) [OF enter str b [symmetric] refl colon elem c [symmetric] refl refl comma] .
            have "follows p (advance ?q5)"
              using f5 by (rule follows_advanceI)
            then have "follows p (final (objectLoop (advance ?q5) (assign_key object name element)))"
              using ih2 by (rule follows_trans)
            then show ?thesis
              using enter str b colon elem c comma
              by (simp add: objectLoop.psimps [OF 3(1)] Let_def)
          qed
        qed
      qed
    qed
  qed
next
  case (4 p)
  let ?q = "skipWhitespace (if currChar p = CHR ''['' then advance p else p)"
  have a: "follows p ?q"
    by (rule follows_skipWhitespaceI) (simp add: follows_advanceI)
  have "follows ?q (final (arrayLoop ?q []))"
    using 4(2) [OF refl] .
  with a have b: "follows p (final (arrayLoop ?q []))"
    by (rule follows_trans)
  show ?case
  proof (cases "arrayLoop ?q []")
    case (Inl e)
    then show ?thesis using b by (simp add: parseArray.psimps [OF 4(1)] Let_def)
  next
    case (Inr c)
    obtain x q1 where c: "c = (x, q1)" by (cases c)
    have q1: "follows p q1" using b Inr c by simp
    have "follows p (snd (consume q1 c0 msg))" for c0 msg
      by (rule follows_trans [OF q1]) simp
    then show ?thesis using Inr c by (simp add: parseArray.psimps [OF 4(1)] Let_def)
  qed
next
  case (5 p array)
  show ?case
  proof (cases "\<not> isEOF p \<and> currChar p \<noteq> CHR '']''")
    case False
    then show ?thesis by (auto simp: arrayLoop.psimps [OF 5(1)])
  next
    case True
    note enter = this
    let ?q1 = "skipWhitespace p"
    have ih1: "follows ?q1 (final (parseElement ?q1))"
      using 5(2) [OF enter] .
    then have f1: "follows p (final (parseElement ?q1))"
      by (rule follows_skipWhitespaceD)
    show ?thesis
    proof (cases "parseElement ?q1")
      case (Inl e)
      then show ?thesis
        using enter f1 by (simp add: arrayLoop.psimps [OF 5(1)])
    next
      case (Inr c)
      note elem = this
      obtain element q2 where c: "c = (element, q2)" by (cases c)
      let ?q3 = "skipWhitespace q2"
      have f3: "follows p ?q3"
        using f1 elem c by (simp add: follows_skipWhitespaceI)
      show ?thesis
      proof (cases "currChar ?q3 \<noteq> CHR '',''")
        case True
        then show ?thesis
          using enter elem c f3 by (simp add: arrayLoop.psimps [OF 5(1)] Let_def)
      next
        case False
        note comma = this
        have ih2: "follows (advance ?q3) (final (arrayLoop (advance ?q3) (array @ [element])))"
          using 5(3) [OF enter elem c [symmetric] refl comma] .
        have "follows p (advance ?q3)"
          using f3 by (rule follows_advanceI)
        then have "follows p (final (arrayLoop (advance ?q3) (array @ [element])))"
          using ih2 by (rule follows_trans)
        then show ?thesis
          using enter elem c comma by (simp add: arrayLoop.psimps [OF 5(1)] Let_def)
      qed
    qed
  qed
qed


lemma remaining_skipWhitespace: "remaining (skipWhitespace p) \<le> remaining p"
  by (rule remaining_follows) simp

lemma element_measure:
  assumes "follows p q" and "\<not> isEOF p"
  shows "(if currChar q = CHR ''{'' \<or> currChar q = CHR ''[''
          then 4 * remaining (skipWhitespace (advance q)) + 2 else 0) < 4 * remaining p"
proof -
  have "remaining (skipWhitespace (advance q)) \<le> remaining (advance q)"
    by (rule remaining_skipWhitespace)
  moreover have "remaining (advance q) < remaining p"
    using assms by (rule remaining_advance_less)
  ultimately show ?thesis by simp
qed

termination parseElement
proof (relation "measure (\<lambda>x. case x of
      Inl (Inl p) \<Rightarrow>
        (if currChar p = CHR ''{'' \<or> currChar p = CHR ''[''
         then 4 * remaining (skipWhitespace (advance p)) + 2 else 0)
    | Inl (Inr p) \<Rightarrow>
        4 * remaining (skipWhitespace (if currChar p = CHR ''{'' then advance p else p)) + 1
    | Inr (Inl (p, _)) \<Rightarrow> 4 * remaining p
    | Inr (Inr (Inl p)) \<Rightarrow>
        4 * remaining (skipWhitespace (if currChar p = CHR ''['' then advance p else p)) + 1
    | Inr (Inr (Inr (p, _))) \<Rightarrow> 4 * remaining p)", goal_cases)
  case 1
  show ?case by simp
next
  case (2 p)
  then show ?case by simp
next
  case (3 p)
  then show ?case by simp
next
  case (4 p x)
  then show ?case by simp
next
  case (5 p object b x y xa)
  have "follows p (final (parseString (skipWhitespace p)))"
    by (rule follows_skipWhitespaceD) (rule follows_parseString)
  then have "follows p y"
    using 5(2,3) by auto
  then have "follows p xa"
    unfolding 5(4) by (rule follows_skipWhitespaceI)
  then have "follows p (skipWhitespace (advance xa))"
    by (intro follows_skipWhitespaceI follows_advanceI)
  then show ?case
    using element_measure [of p "skipWhitespace (advance xa)"] 5(1) by simp
next
  case (6 p object b x y xa ba xaa ya xab xac)
  have "follows p (final (parseString (skipWhitespace p)))"
    by (rule follows_skipWhitespaceD) (rule follows_parseString)
  then have "follows p y"
    using 6(2,3) by auto
  then have "follows p xa"
    unfolding 6(4) by (rule follows_skipWhitespaceI)
  then have a: "follows p (skipWhitespace (advance xa))"
    by (intro follows_skipWhitespaceI follows_advanceI)
  have "follows (skipWhitespace (advance xa)) (final (parseElement (skipWhitespace (advance xa))))"
    using 6(11) by (rule follows_parse_partial(1))
  then have "follows (skipWhitespace (advance xa)) ya"
    using 6(6,7) by auto
  with a have "follows p ya"
    by (rule follows_trans)
  then have "follows p xab"
    unfolding 6(8) by (rule follows_skipWhitespaceI)
  then show ?case
    using remaining_advance_less [of p xab] 6(1) by simp
next
  case (7 p x)
  then show ?case by simp
next
  case (8 p array)
  then show ?case
    using element_measure [of p "skipWhitespace p"] by simp
next
  case (9 p array b x y xa)
  have "follows (skipWhitespace p) (final (parseElement (skipWhitespace p)))"
    using 9(6) by (rule follows_parse_partial(1))
  then have "follows (skipWhitespace p) y"
    using 9(2,3) by auto
  then have "follows p y"
    by (rule follows_skipWhitespaceD)
  then have "follows p xa"
    unfolding 9(4) by (rule follows_skipWhitespaceI)
  then show ?case
    using remaining_advance_less [of p xa] 9(1) by simp
qed


declare parseElement.simps [simp del] parseObject.simps [simp del] objectLoop.simps [simp del]
  parseArray.simps [simp del] arrayLoop.simps [simp del]

lemma parser_total: "parseElement_parseObject_objectLoop_parseArray_arrayLoop_dom x"
proof -
  have all: "parseElement_parseObject_objectLoop_parseArray_arrayLoop_dom (Inl (Inl p))"
    "parseElement_parseObject_objectLoop_parseArray_arrayLoop_dom (Inl (Inr p1))"
    "parseElement_parseObject_objectLoop_parseArray_arrayLoop_dom (Inr (Inl (p2, object)))"
    "parseElement_parseObject_objectLoop_parseArray_arrayLoop_dom (Inr (Inr (Inl p3)))"
    "parseElement_parseObject_objectLoop_parseArray_arrayLoop_dom (Inr (Inr (Inr (p4, array))))"
    for p p1 p2 object p3 p4 array
    by (induct p and p1 and p2 object and p3 and p4 array
        rule: parseElement_parseObject_objectLoop_parseArray_arrayLoop.induct)
      (auto intro: parseElement_parseObject_objectLoop_parseArray_arrayLoop.domintros)
  show ?thesis
  proof (cases x)
    case (Inl a)
    then show ?thesis using all(1,2) by (cases a) simp_all
  next
    case (Inr b)
    note outer = this
    show ?thesis
    proof (cases b)
      case (Inl c)
      then show ?thesis using outer all(3) by (cases c) simp
    next
      case (Inr e)
      note inner = this
      show ?thesis
      proof (cases e)
        case (Inl p3)
        then show ?thesis using outer inner all(4) by simp
      next
        case (Inr f)
        then show ?thesis using outer inner all(5) by (cases f) simp
      qed
    qed
  qed
qed

lemmas follows_parse = follows_parse_partial [OF parser_total]

text \<open>\<open>Parser::parse\<close> and \<open>Parser::isOK\<close>.\<close>

definition parse :: "Parser \<Rightarrow> (failure \<times> Parser) + (Value \<times> Parser)" where
  "parse p = parseElement (p\<lparr>isOk := True\<rparr>)"

definition isOK :: "Parser \<Rightarrow> bool" where
  "isOK p = isOk p"

section \<open>Evaluation on concrete inputs\<close>

lemma floor_rat_numeral [simp]:
  "\<lfloor>numeral a / numeral b :: rat\<rfloor> = numeral a div numeral b"
  by (metis floor_divide_of_int_eq of_int_numeral)

lemma floor_rat_one_numeral [simp]: "\<lfloor>1 / numeral b :: rat\<rfloor> = 1 div numeral b"
  by (metis floor_divide_of_int_eq of_int_numeral of_int_1)

lemma replicate_numeral [simp]: "replicate (numeral k) x = x # replicate (pred_numeral k) x"
  by (simp add: numeral_eq_Suc)

lemma digits_small: "n < 10 \<Longrightarrow> digits n = [''0123456789'' ! n]"
  by (simp add: digits.simps)

lemma digits_large: "10 \<le> n \<Longrightarrow> digits n = digits (n div 10) @ [''0123456789'' ! (n mod 10)]"
  by (subst digits.simps) simp

lemmas number_eval = digits_small digits_large to_string_ld_def to_string_long_def
  round_half_even_def static_cast_long_def Let_def

lemmas value_eval = getRepresentation.simps makeObject_def makeArray_def makeString_def makeNumber_def makeBoolean_def
  makeNull_def Value_default_def Value_of_type_def assign_key_def assign_entry_def toArray_def
  toObject_def
  toString_def toBoolean_def getType_def std_string_def

lemmas stod_eval = stod_def strtod_decimal_def isdigit_def exponent_part_def decimal_value_def
  digit_value_def pow_int_def to_double_def round_half_even_def binade_def compute_floorlog
  ceiling_def Let_def

lemmas parser_eval = new_Parser_def advance_def in_content_def isEOF_def isWhitespace_def Let_def
  parse_def isOK_def parseElement.simps parseObject.simps objectLoop.simps parseArray.simps
  arrayLoop.simps skipWhitespace.simps stringLoop.simps numberLoop.simps identifierLoop.simps
  parseString_def parseNumber_def validateIdentifier_def consume_def reportError_def
  afterSwitch_def quoted_def substr_def numberChar_def isdigit_def to_string_long_def
  digits_small digits_large

section \<open>Facts about the conversions\<close>

lemma floor_rat_neg_numeral [simp]:
  "\<lfloor>- (numeral a / numeral b) :: rat\<rfloor> = - numeral a div numeral b"
  by (metis floor_divide_of_int_eq of_int_numeral of_int_minus minus_divide_left)

lemma digit_char: "d < 10 \<Longrightarrow> ''0123456789'' ! d \<in> set ''0123456789''"
  by (rule nth_mem) simp

lemma set_digits: "set (digits n) \<subseteq> set ''0123456789''"
proof (induction n rule: digits.induct)
  case (1 n)
  show ?case
  proof (cases "n < 10")
    case True
    then show ?thesis
      using digit_char [of n] by (simp add: digits_small)
  next
    case False
    then have "set (digits (n div 10)) \<subseteq> set ''0123456789''"
      using 1 by simp
    moreover have "''0123456789'' ! (n mod 10) \<in> set ''0123456789''"
      by (rule digit_char) simp
    ultimately show ?thesis
      using False by (simp add: digits_large)
  qed
qed

lemma digits_not_Nil [simp]: "digits n \<noteq> []"
  by (cases "n < 10") (simp_all add: digits_small digits_large)

lemma length_digits: "n < 10 ^ k \<Longrightarrow> 0 < k \<Longrightarrow> length (digits n) \<le> k"
proof (induction n arbitrary: k rule: digits.induct)
  case (1 n)
  show ?case
  proof (cases "n < 10")
    case True
    then show ?thesis using 1(3) by (simp add: digits_small)
  next
    case False
    obtain j where k: "k = Suc j" using 1(3) by (cases k) auto
    have "j \<noteq> 0"
    proof
      assume "j = 0"
      then have "n < 10" using 1(2) k by simp
      then show False using False by simp
    qed
    then have "0 < j" by simp
    moreover have "n < 10 * 10 ^ j"
      using 1(2) k by simp
    then have "n div 10 < 10 ^ j"
      by (simp only: div_less_iff_less_mult [OF zero_less_numeral] mult.commute)
    ultimately have "length (digits (n div 10)) \<le> j"
      using 1(1) False by simp
    then show ?thesis
      using False k by (simp add: digits_large)
  qed
qed

lemma no_point_in_digits: "CHR ''.'' \<notin> set (digits n)"
proof
  assume "CHR ''.'' \<in> set (digits n)"
  then have "CHR ''.'' \<in> set ''0123456789''"
    using set_digits [of n] by (rule rev_subsetD)
  then show False by simp
qed

lemma no_point_in_to_string_long: "CHR ''.'' \<notin> set (to_string_long n)"
  by (simp add: to_string_long_def no_point_in_digits)

lemma Ints_iff_floor: "(x \<in> \<int>) = (of_int \<lfloor>x\<rfloor> = x)"
  by (metis Ints_of_int of_int_floor)

lemma static_cast_long_int:
  "- (2 ^ 63) \<le> n \<Longrightarrow> n < 2 ^ 63 \<Longrightarrow> static_cast_long (of_int n) = Inr n"
  by (simp add: static_cast_long_def)

lemma static_cast_long_frac:
  assumes "x \<notin> \<int>" and "- (2 ^ 63) - 1 < x" and "x < 2 ^ 63"
  shows "\<exists>t. static_cast_long x = Inr t \<and> x - of_int t \<noteq> 0"
proof -
  let ?t = "if 0 \<le> x then \<lfloor>x\<rfloor> else \<lceil>x\<rceil>"
  have lo: "- (2 ^ 63) \<le> ?t"
  proof (cases "0 \<le> x")
    case True
    then have "0 \<le> \<lfloor>x\<rfloor>" by simp
    then show ?thesis using True by simp
  next
    case False
    have "rat_of_int (- (2 ^ 63) - 1) < x" using assms(2) by simp
    then have "- (2 ^ 63) - 1 < \<lceil>x\<rceil>" by (simp only: less_ceiling_iff)
    then show ?thesis using False by simp
  qed
  have hi: "?t < 2 ^ 63"
  proof (cases "0 \<le> x")
    case True
    have "x < rat_of_int (2 ^ 63)" using assms(3) by simp
    then have "\<lfloor>x\<rfloor> < 2 ^ 63" by (simp only: floor_less_iff)
    then show ?thesis using True by simp
  next
    case False
    then have "\<lceil>x\<rceil> \<le> 0" by (simp add: ceiling_le_iff)
    then show ?thesis using False by simp
  qed
  have "x - of_int ?t \<noteq> 0"
    using assms(1) by (metis Ints_of_int eq_iff_diff_eq_0)
  then show ?thesis
    using lo hi by (auto simp: static_cast_long_def Let_def)
qed

lemma to_string_ld_shape:
  "\<exists>ip fr. to_string_ld x = (if x < 0 then ''-'' else '''') @ ip @ ''.'' @ fr
     \<and> length fr = 6 \<and> ip \<noteq> [] \<and> set (ip @ fr) \<subseteq> set ''0123456789''"
proof -
  define m where "m = nat (round_half_even (\<bar>x\<bar> * 1000000))"
  define frac where "frac = digits (m mod 1000000)"
  have "length frac \<le> 6"
    unfolding frac_def by (rule length_digits) simp_all
  then have len: "length (replicate (6 - length frac) CHR ''0'' @ frac) = 6"
    by simp
  have "set (digits (m div 1000000) @ replicate (6 - length frac) CHR ''0'' @ frac)
      \<subseteq> set ''0123456789''"
    using set_digits [of "m div 1000000"] set_digits [of "m mod 1000000"]
    by (auto simp: frac_def)
  then show ?thesis
    using len unfolding to_string_ld_def Let_def m_def [symmetric] frac_def [symmetric]
    by (intro exI [of _ "digits (m div 1000000)"]
        exI [of _ "replicate (6 - length frac) CHR ''0'' @ frac"]) simp
qed

subsection \<open>The lower end of the \<open>double\<close> range\<close>

text \<open>
  \<open>binade\<close> and \<open>round_half_even\<close> are determined by bounds, which settles two texts near
  the smallest normal \<open>double\<close>: a value that rounds up to \<open>2^-1022\<close> is returned with no
  \<open>ERANGE\<close>, an inexact subnormal result is reported as out of range.
\<close>

lemma floorlog_between:
  fixes n :: nat
  assumes "2 ^ j \<le> n" and "n < 2 ^ Suc j"
  shows "floorlog 2 n = Suc j"
proof (rule antisym)
  show "floorlog 2 n \<le> Suc j"
    using assms(2) by (rule floorlog_leI) simp_all
  show "Suc j \<le> floorlog 2 n"
    using assms(1) by (rule floorlog_ge_SucI) simp
qed

lemma binade_eqI:
  assumes lo: "pow_int 2 e \<le> x" and hi: "x < pow_int 2 (e + 1)"
  shows "binade x = e"
proof (cases "0 \<le> e")
  case True
  define j where "j = nat e"
  have e: "e = int j"
    using True by (simp add: j_def)
  have lo': "2 ^ j \<le> x" and hi': "x < 2 ^ Suc j"
    using lo hi by (simp_all add: pow_int_def e nat_add_distrib)
  have "(1::rat) \<le> 2 ^ j"
    by simp
  then have one: "1 \<le> x"
    using lo' by linarith
  have "rat_of_int (2 ^ j) \<le> x"
    using lo' by simp
  then have "2 ^ j \<le> \<lfloor>x\<rfloor>"
    by (simp only: le_floor_iff)
  then have a: "2 ^ j \<le> nat \<lfloor>x\<rfloor>"
    by (simp add: le_nat_iff)
  have "x < rat_of_int (2 ^ Suc j)"
    using hi' by simp
  then have "\<lfloor>x\<rfloor> < 2 ^ Suc j"
    by (simp only: floor_less_iff)
  then have b: "nat \<lfloor>x\<rfloor> < 2 ^ Suc j"
    using one by (simp add: nat_less_iff)
  have "floorlog 2 (nat \<lfloor>x\<rfloor>) = Suc j"
    using a b by (rule floorlog_between)
  then show ?thesis
    using one by (simp add: binade_def e)
next
  case False
  define k where "k = nat (- e)"
  have e: "e = - int k" and k: "0 < k"
    using False by (simp_all add: k_def)
  obtain i where i: "k = Suc i"
    using k by (cases k) simp_all
  have lo': "1 / 2 ^ k \<le> x"
    using lo k by (simp add: pow_int_def e)
  have hi': "x < 1 / 2 ^ i"
    using hi by (cases "i = 0") (simp_all add: pow_int_def e i)
  have "(0::rat) < 1 / 2 ^ k"
    by simp
  then have x_pos: "0 < x"
    using lo' by linarith
  have "(1::rat) / 2 ^ i \<le> 1"
    by simp
  then have less_one: "\<not> 1 \<le> x"
    using hi' by linarith
  have "1 / x \<le> 2 ^ k"
    using lo' x_pos by (simp add: field_simps)
  then have "1 / x \<le> rat_of_int (2 ^ k)"
    by simp
  then have "\<lceil>1 / x\<rceil> \<le> 2 ^ k"
    by (simp only: ceiling_le_iff)
  then have "\<lceil>1 / x\<rceil> \<le> int (2 ^ Suc i)"
    by (simp add: i)
  moreover have "0 < (2::nat) ^ Suc i"
    by simp
  ultimately have b: "nat (\<lceil>1 / x\<rceil> - 1) < 2 ^ Suc i"
    by linarith
  have "2 ^ i < 1 / x"
    using hi' x_pos by (simp add: field_simps)
  then have "rat_of_int (2 ^ i) < 1 / x"
    by simp
  then have "2 ^ i < \<lceil>1 / x\<rceil>"
    by (simp only: less_ceiling_iff)
  then have "int (2 ^ i) < \<lceil>1 / x\<rceil>"
    by simp
  then have a: "2 ^ i \<le> nat (\<lceil>1 / x\<rceil> - 1)"
    by linarith
  have "floorlog 2 (nat (\<lceil>1 / x\<rceil> - 1)) = Suc i"
    using a b by (rule floorlog_between)
  then show ?thesis
    using less_one by (simp add: binade_def e i)
qed

lemma round_half_even_eqI:
  assumes "of_int z - 1 / 2 < y" and "y < of_int z + 1 / 2"
  shows "round_half_even y = z"
proof (cases "of_int z \<le> y")
  case True
  then have "\<lfloor>y\<rfloor> = z"
    using assms(2) by (intro floor_unique) simp_all
  then show ?thesis
    using assms(2) by (simp add: round_half_even_def Let_def)
next
  case False
  then have "\<lfloor>y\<rfloor> = z - 1"
    using assms(1) by (intro floor_unique) simp_all
  then show ?thesis
    using assms(1) False by (simp add: round_half_even_def Let_def)
qed

lemma stod_below_smallest_normal:
  "stod ''2.2250738585072013e-308'' = Inr (1 / 2 ^ 1022)"
proof -
  define x :: rat where "x = 22250738585072013 / 10 ^ 324"
  have x_pos: "0 < x"
    by (simp add: x_def)
  then have abs_x: "\<bar>x\<bar> = x"
    by simp
  have scan: "strtod_decimal ''2.2250738585072013e-308'' = Some x"
    by (simp add: x_def strtod_decimal_def isdigit_def exponent_part_def decimal_value_def
        digit_value_def pow_int_def Let_def)
  have b: "binade x = - 1023"
    by (rule binade_eqI) (simp_all add: x_def pow_int_def)
  have u: "pow_int 2 (max (binade x) (- 1022) - 52) = 1 / 2 ^ 1074"
    by (simp add: b pow_int_def)
  have w: "pow_int 2 (binade x - 52) = 1 / 2 ^ 1075"
    by (simp add: b pow_int_def)
  have m: "pow_int 2 (- 1022) = 1 / 2 ^ 1022"
    by (simp add: pow_int_def)
  have r1: "round_half_even (x / (1 / 2 ^ 1074)) = 2 ^ 52"
    by (rule round_half_even_eqI) (simp_all add: x_def)
  have r2: "round_half_even (x / (1 / 2 ^ 1075)) = 2 ^ 53"
    by (rule round_half_even_eqI) (simp_all add: x_def)
  have big: "\<not> 2 ^ 1024 - 2 ^ 970 \<le> x"
    by (simp add: x_def)
  have "to_double x = Inr (1 / 2 ^ 1022)"
    unfolding to_double_def Let_def abs_x u w m r1 r2
    using x_pos big by simp
  then show ?thesis
    by (simp add: stod_def scan)
qed

lemma stod_inexact_subnormal: "stod ''1e-320'' = Inl out_of_range"
proof -
  define x :: rat where "x = 1 / 10 ^ 320"
  have x_pos: "0 < x"
    by (simp add: x_def)
  then have abs_x: "\<bar>x\<bar> = x"
    by simp
  have scan: "strtod_decimal ''1e-320'' = Some x"
    by (simp add: x_def strtod_decimal_def isdigit_def exponent_part_def decimal_value_def
        digit_value_def pow_int_def Let_def)
  have b: "binade x = - 1064"
    by (rule binade_eqI) (simp_all add: x_def pow_int_def)
  have u: "pow_int 2 (max (binade x) (- 1022) - 52) = 1 / 2 ^ 1074"
    by (simp add: b pow_int_def)
  have w: "pow_int 2 (binade x - 52) = 1 / 2 ^ 1116"
    by (simp add: b pow_int_def)
  have m: "pow_int 2 (- 1022) = 1 / 2 ^ 1022"
    by (simp add: pow_int_def)
  have r1: "round_half_even (x / (1 / 2 ^ 1074)) = 2024"
    by (rule round_half_even_eqI) (simp_all add: x_def)
  have r2: "round_half_even (x / (1 / 2 ^ 1116)) = 8901745239978055"
    by (rule round_half_even_eqI) (simp_all add: x_def)
  have big: "\<not> 2 ^ 1024 - 2 ^ 970 \<le> x"
    by (simp add: x_def)
  have inexact: "rat_of_int 2024 * (1 / 2 ^ 1074) \<noteq> x"
    by (simp add: x_def)
  have "to_double x = Inl out_of_range"
    unfolding to_double_def Let_def abs_x u w m r1 r2
    using x_pos big inexact by simp
  then show ?thesis
    by (simp add: stod_def scan)
qed

section \<open>The cursor on a known text\<close>

text \<open>
  \<open>at_index p i\<close> is the parser \<open>p\<close> with the cursor at index \<open>i\<close> of its text and the
  character a run of \<open>advance\<close> leaves there: the character at \<open>i\<close>, or the last one of
  the text once \<open>i\<close> is past it.
\<close>

definition at_index :: "Parser \<Rightarrow> nat \<Rightarrow> Parser" where
  "at_index p i = p\<lparr>currIdx := int i, currChar := content p ! min i (length (content p) - 1)\<rparr>"

lemma at_index_fields [simp]:
  "content (at_index p i) = content p"
  "currIdx (at_index p i) = int i"
  "currLine (at_index p i) = currLine p"
  "isOk (at_index p i) = isOk p"
  "cout (at_index p i) = cout p"
  by (simp_all add: at_index_def)

lemma at_index_twice [simp]: "at_index (at_index p i) j = at_index p j"
  by (simp add: at_index_def)

lemma currChar_at_index: "i < length (content p) \<Longrightarrow> currChar (at_index p i) = content p ! i"
  by (simp add: at_index_def)

lemma currChar_at_end:
  "length (content p) \<le> i \<Longrightarrow> content p \<noteq> [] \<Longrightarrow> currChar (at_index p i) = last (content p)"
proof -
  assume "length (content p) \<le> i" and "content p \<noteq> []"
  then have "min i (length (content p) - 1) = length (content p) - 1"
    by simp
  then show ?thesis
    using \<open>content p \<noteq> []\<close> by (simp add: at_index_def last_conv_nth)
qed

lemma isEOF_at_index [simp]: "isEOF (at_index p i) = (length (content p) \<le> i)"
  by (auto simp: isEOF_def in_content_def)

lemma advance_at_index [simp]: "advance (at_index p i) = at_index p (Suc i)"
proof (cases "Suc i < length (content p)")
  case True
  have "nat (int i + 1) = Suc i" by simp
  then show ?thesis
    using True by (simp add: advance_def in_content_def Let_def at_index_def add.commute)
next
  case False
  then have "min (Suc i) (length (content p) - 1) = min i (length (content p) - 1)"
    by (auto simp: min_def)
  then show ?thesis
    using False by (simp add: advance_def in_content_def Let_def at_index_def)
qed

lemma reportError_at_index: "reportError (at_index p i) msg = at_index (reportError p msg) i"
  by (simp add: reportError_def at_index_def)

lemma new_Parser_at_index:
  "s \<noteq> [] \<Longrightarrow> new_Parser s =
     at_index \<lparr>content = s, currIdx = 0, currChar = hd s, currLine = 1, isOk = True, cout = []\<rparr> 0"
  by (cases s) (simp_all add: new_Parser_def advance_def in_content_def Let_def at_index_def)

text \<open>The character under the cursor when the text is split at the cursor.\<close>

lemma currChar_split:
  "content p = pre @ c # rest \<Longrightarrow> currChar (at_index p (length pre)) = c"
  by (simp add: currChar_at_index)

lemma isEOF_split: "content p = pre @ c # rest \<Longrightarrow> \<not> isEOF (at_index p (length pre))"
  by simp

lemma skipWhitespace_stays:
  "isEOF p \<or> \<not> isWhitespace (currChar p) \<Longrightarrow> skipWhitespace p = p"
  by (subst skipWhitespace.simps) auto

lemma stringLoop_scan:
  assumes "content p = pre @ t @ rest" and "CHR 0x22 \<notin> set t"
    and "rest = [] \<or> hd rest = CHR 0x22"
  shows "stringLoop (at_index p (length pre)) len =
           (at_index p (length pre + length t), len + int (length t))"
  using assms
proof (induction t arbitrary: pre len)
  case Nil
  show ?case
  proof (cases rest)
    case Nil
    then show ?thesis
      using Nil.prems by (subst stringLoop.simps) simp
  next
    case (Cons c rest')
    then have "currChar (at_index p (length pre)) = CHR 0x22"
      using Nil.prems currChar_split [of p pre c rest'] by simp
    then show ?thesis
      by (subst stringLoop.simps) simp
  qed
next
  case (Cons c t)
  have here: "currChar (at_index p (length pre)) = c" "\<not> isEOF (at_index p (length pre))"
    using Cons.prems(1) currChar_split [of p pre c "t @ rest"] by simp_all
  have "stringLoop (at_index p (length (pre @ [c]))) (len + 1) =
          (at_index p (length (pre @ [c]) + length t), len + 1 + int (length t))"
    using Cons.prems by (intro Cons.IH) simp_all
  then show ?case
    using here Cons.prems(2) by (subst stringLoop.simps) auto
qed

lemma identifierLoop_scan:
  assumes "content p = pre @ t @ rest" and "int n = len + int (length t)"
  shows "identifierLoop (at_index p (length pre)) len n =
           (at_index p (length pre + length t), int n)"
  using assms
proof (induction t arbitrary: pre len)
  case Nil
  then show ?case by (subst identifierLoop.simps) simp
next
  case (Cons c t)
  have "identifierLoop (at_index p (length (pre @ [c]))) (len + 1) n =
          (at_index p (length (pre @ [c]) + length t), int n)"
    using Cons.prems by (intro Cons.IH) simp_all
  then show ?case
    using Cons.prems by (subst identifierLoop.simps) simp
qed

text \<open>
  The number scanner runs through a text of number characters that holds at most one
  point and one \<open>e\<close> (none of a kind already seen), up to a character that is not one.
\<close>

lemma numberLoop_scan:
  assumes "content p = pre @ t @ rest" and "\<forall>c\<in>set t. numberChar c"
    and "count_list t CHR ''.'' + (if fp then 1 else 0) \<le> 1"
    and "count_list t CHR ''e'' + (if ex then 1 else 0) \<le> 1"
    and "rest = [] \<or> \<not> numberChar (hd rest)"
  shows "numberLoop (at_index p (length pre)) len fp ex =
           (at_index p (length pre + length t), len + int (length t))"
  using assms
proof (induction t arbitrary: pre len fp ex)
  case Nil
  show ?case
  proof (cases rest)
    case Nil
    then show ?thesis
      using Nil.prems by (subst numberLoop.simps) simp
  next
    case (Cons c rest')
    then have "currChar (at_index p (length pre)) = c" "\<not> numberChar c"
      using Nil.prems currChar_split [of p pre c rest'] by simp_all
    then show ?thesis
      by (subst numberLoop.simps) simp
  qed
next
  case (Cons c t)
  have here: "currChar (at_index p (length pre)) = c" "\<not> isEOF (at_index p (length pre))"
    using Cons.prems(1) currChar_split [of p pre c "t @ rest"] by simp_all
  have c: "numberChar c" "\<not> (c = CHR ''.'' \<and> fp)" "\<not> (c = CHR ''e'' \<and> ex)"
    using Cons.prems(2,3,4) by (auto split: if_splits)
  have "numberLoop (at_index p (length (pre @ [c]))) (len + 1) (fp \<or> c = CHR ''.'') (ex \<or> c = CHR ''e'') =
          (at_index p (length (pre @ [c]) + length t), len + 1 + int (length t))"
    using Cons.prems by (intro Cons.IH) (auto split: if_splits)
  then show ?case
    using here c by (subst numberLoop.simps) simp
qed

lemma substr_split: "substr (pre @ t @ rest) (int (length pre)) (int (length t)) = Inr t"
  by (simp add: substr_def)

lemma parseString_at:
  assumes "content p = pre @ CHR 0x22 # t @ CHR 0x22 # rest" and "CHR 0x22 \<notin> set t"
  shows "parseString (at_index p (length pre)) = Inr (t, at_index p (length pre + length t + 2))"
proof -
  have open_quote: "currChar (at_index p (length pre)) = CHR 0x22"
    using assms(1) by (rule currChar_split)
  have "content p = (pre @ [CHR 0x22]) @ t @ CHR 0x22 # rest"
    using assms(1) by simp
  then have loop: "stringLoop (at_index p (length (pre @ [CHR 0x22]))) 0 =
      (at_index p (length (pre @ [CHR 0x22]) + length t), 0 + int (length t))"
    using assms(2) by (rule stringLoop_scan) simp
  have "content p = (pre @ CHR 0x22 # t) @ CHR 0x22 # rest"
    using assms(1) by simp
  then have close_quote: "currChar (at_index p (length (pre @ CHR 0x22 # t))) = CHR 0x22"
    by (rule currChar_split)
  have sub: "substr (content p) (int (length (pre @ [CHR 0x22]))) (int (length t)) = Inr t"
    using substr_split [of "pre @ [CHR 0x22]" t "CHR 0x22 # rest"] assms(1) by simp
  show ?thesis
    using open_quote loop close_quote sub
    by (simp add: parseString_def Let_def consume_def)
qed

lemma validateIdentifier_at:
  assumes "content p = pre @ ident @ rest"
  shows "validateIdentifier (at_index p (length pre)) ident =
           Inr (True, at_index p (length pre + length ident))"
proof -
  have "identifierLoop (at_index p (length pre)) 0 (length ident) =
          (at_index p (length pre + length ident), int (length ident))"
    using assms by (rule identifierLoop_scan) simp
  then show ?thesis
    using substr_split [of pre ident rest] assms
    by (simp add: validateIdentifier_def Let_def)
qed

lemma parseNumber_at:
  assumes "content p = pre @ t @ rest" and "\<forall>c\<in>set t. numberChar c"
    and "count_list t CHR ''.'' \<le> 1" and "count_list t CHR ''e'' \<le> 1"
    and "rest = [] \<or> \<not> numberChar (hd rest)"
  shows "parseNumber (at_index p (length pre)) =
           (case stod t of
              Inr d \<Rightarrow> Inr (makeNumber d, at_index p (length pre + length t))
            | Inl e \<Rightarrow>
                if e = out_of_range
                then Inr (makeNumber 0,
                          at_index (p\<lparr>cout := cout p @ [''[WARNING] At line '' @ to_string_long (currLine p)
                                                   @ '': number overflow'' @ [CHR 0x0A]]\<rparr>)
                            (length pre + length t))
                else Inl (e, at_index p (length pre + length t)))"
proof -
  have "numberLoop (at_index p (length pre)) 0 False False =
          (at_index p (length pre + length t), 0 + int (length t))"
    using assms by (intro numberLoop_scan) simp_all
  then show ?thesis
    using substr_split [of pre t rest] assms(1)
    by (simp add: parseNumber_def Let_def at_index_def split: sum.splits)
qed

text \<open>A text the scanner of \<open>parseNumber\<close> takes whole, and that \<open>parseElement\<close> gives to it.\<close>

definition numeric_literal :: "string \<Rightarrow> bool" where
  "numeric_literal t =
     (t \<noteq> [] \<and> (hd t = CHR ''+'' \<or> hd t = CHR ''-'' \<or> isdigit (hd t))
      \<and> list_all numberChar t \<and> count_list t CHR ''.'' \<le> 1 \<and> count_list t CHR ''e'' \<le> 1)"


lemma synced_at_index: "synced p \<Longrightarrow> at_index p (nat (currIdx p)) = p"
  by (simp add: synced_def at_index_def)

lemma synced_new_Parser: "s \<noteq> [] \<Longrightarrow> synced (new_Parser s)"
  by (cases s) (simp_all add: new_Parser_def advance_def in_content_def Let_def synced_def)

lemma synced_follows: "follows p q \<Longrightarrow> synced p \<Longrightarrow> synced q"
  by (auto simp: follows_def)

lemma failed_follows: "follows p q \<Longrightarrow> \<not> isOk p \<Longrightarrow> \<not> isOk q"
  by (auto simp: follows_def)

lemma nth_at_split:
  "t \<noteq> [] \<Longrightarrow> (t @ rest) ! min (length t) (length (t @ rest) - 1) = (if rest = [] then last t else hd rest)"
  by (cases rest) (simp_all add: last_conv_nth nth_append)

lemma number_start_dispatch:
  assumes "currChar p = CHR ''+'' \<or> currChar p = CHR ''-'' \<or> isdigit (currChar p)"
  shows "parseElement p = parseNumber p"
  using assms by (subst parseElement.simps) (auto simp: isdigit_def)

lemma isOk_reportError [simp]: "\<not> isOk (reportError p msg)"
  by (simp add: reportError_def)

lemma parseString_without_quote:
  assumes "synced q" and "currChar q \<noteq> CHR 0x22"
    and "CHR 0x22 \<notin> set (drop (nat (currIdx q)) (content q))"
  shows "\<not> isOk (final (parseString q))"
proof -
  have "\<exists>q' len. stringLoop q 0 = (q', len) \<and> currChar q' \<noteq> CHR 0x22"
  proof (cases "isEOF q")
    case True
    then have "stringLoop q 0 = (q, 0)"
      by (subst stringLoop.simps) simp
    then show ?thesis using assms(2) by simp
  next
    case False
    let ?i = "nat (currIdx q)"
    have i: "?i < length (content q)"
      using False assms(1) by (auto simp: isEOF_def in_content_def synced_def)
    have q: "at_index q ?i = q"
      using assms(1) by (rule synced_at_index)
    have "content q = take ?i (content q) @ drop ?i (content q) @ []"
      by simp
    then have "stringLoop (at_index q (length (take ?i (content q)))) 0 =
        (at_index q (length (take ?i (content q)) + length (drop ?i (content q))),
         0 + int (length (drop ?i (content q))))"
      using assms(3) by (rule stringLoop_scan) simp
    then have loop: "stringLoop q 0 = (at_index q (length (content q)), int (length (content q) - ?i))"
      using i q by (simp add: min_def)
    have "drop ?i (content q) \<noteq> []"
      using i by simp
    then have "last (content q) \<in> set (drop ?i (content q))"
      using last_in_set [of "drop ?i (content q)"] i by simp
    then have "last (content q) \<noteq> CHR 0x22"
      using assms(3) by auto
    moreover have "currChar (at_index q (length (content q))) = last (content q)"
      using assms(1) by (intro currChar_at_end) (simp_all add: synced_def)
    ultimately show ?thesis
      using loop by simp
  qed
  then obtain q' len where "stringLoop q 0 = (q', len)" "currChar q' \<noteq> CHR 0x22"
    by blast
  then show ?thesis
    using assms(2) by (simp add: parseString_def Let_def consume_def split: sum.splits)
qed

section \<open>Round trip\<close>

text \<open>
  \<open>number_restored n\<close>: the rendering of the Number \<open>n\<close> is a text from which \<open>std::stod\<close>
  returns \<open>n\<close> again.
\<close>

definition number_restored :: "rat \<Rightarrow> bool" where
  "number_restored n =
     (case getRepresentation (makeNumber n) 0 0 of Inl e \<Rightarrow> False | Inr s \<Rightarrow> stod s = Inr n)"

text \<open>
  The trees of the round trip: made by the six factories (a Boolean holds 0 or 1, the
  fields a factory does not set are empty, the keys of an Object are distinct), no key
  and no String holds a quote character, and every Number is restored by \<open>std::stod\<close>.
\<close>

fun round_trip_tree :: "Value \<Rightarrow> bool" where
  "round_trip_tree (Value t m a s n) =
     (case t of
        ValueType_Object \<Rightarrow>
          a = [] \<and> s = [] \<and> n = 0 \<and> distinct (map fst m)
          \<and> (\<forall>kv\<in>set m. CHR 0x22 \<notin> set (fst kv) \<and> round_trip_tree (snd kv))
      | ValueType_Array \<Rightarrow> m = [] \<and> s = [] \<and> n = 0 \<and> (\<forall>x\<in>set a. round_trip_tree x)
      | ValueType_String \<Rightarrow> m = [] \<and> a = [] \<and> n = 0 \<and> CHR 0x22 \<notin> set s
      | ValueType_Number \<Rightarrow> m = [] \<and> a = [] \<and> s = [] \<and> number_restored n
      | ValueType_Boolean \<Rightarrow> m = [] \<and> a = [] \<and> s = [] \<and> (n = 0 \<or> n = 1)
      | ValueType_Null \<Rightarrow> m = [] \<and> a = [] \<and> s = [] \<and> n = 0
      | ValueType_Unknown \<Rightarrow> False)"

text \<open>
  Structural equality of two trees: the same variant and payloads, the elements of an Array
  pairwise the same, and for an Object the same number of entries, the same keys and under
  every key the same tree. The order in which an Object enumerates its entries does not
  count.
\<close>

function same_tree :: "Value \<Rightarrow> Value \<Rightarrow> bool" where
  "same_tree (Value t m a s n) w =
     (type w = t \<and> str w = s \<and> num w = n
      \<and> list_all2 same_tree a (arr w)
      \<and> length (obj w) = length m \<and> fst ` set (obj w) = fst ` set m
      \<and> (\<forall>kv\<in>set m. \<forall>kw\<in>set (obj w). fst kw = fst kv \<longrightarrow> same_tree (snd kv) (snd kw)))"
  by pat_completeness auto

termination same_tree
proof (relation "measure (\<lambda>(v, w). size v)", goal_cases)
  case 1
  show ?case by simp
next
  case (2 t m a s n w x y)
  have "size x \<le> size_list size a"
    using 2(1) by (simp add: size_list_estimation')
  then show ?case by simp
next
  case (3 t m a s n w kv kw)
  have "size_prod (\<lambda>_. 0) size kv \<le> size_list (size_prod (\<lambda>_. 0) size) m"
    using 3(1) by (simp add: size_list_estimation')
  then show ?case
    using size_snd_le [of kv] by simp
qed

lemma same_tree_entry_order:
  assumes "k \<noteq> k'"
  shows "same_tree (makeObject [(k, x), (k', y)]) (makeObject [(k', y'), (k, x')])
           = (same_tree x x' \<and> same_tree y y')"
  using assms by (auto simp: makeObject_def)

text \<open>
  The tree the parser builds from the rendering of a tree: the entries of every Object
  come out in the reverse order, since each new key is put first.
\<close>

primrec reparsed :: "Value \<Rightarrow> Value" where
  "reparsed (Value t m a s n) = Value t (rev (map (map_prod id reparsed) m)) (map reparsed a) s n"

text \<open>
  \<open>parses_as v w s\<close>: the text \<open>s\<close> is the compact rendering of \<open>v\<close> at every depth, and
  \<open>parseElement\<close>, started at an occurrence of \<open>s\<close> that no character of a number follows,
  returns \<open>w\<close> with the cursor right behind \<open>s\<close>.
\<close>

definition value_start :: "char \<Rightarrow> bool" where
  "value_start c = (\<not> isWhitespace c \<and> c \<noteq> CHR '']'' \<and> c \<noteq> CHR ''}'')"

definition parses_as :: "Value \<Rightarrow> Value \<Rightarrow> string \<Rightarrow> bool" where
  "parses_as v w s =
     (s \<noteq> [] \<and> value_start (hd s) \<and> (\<forall>d. getRepresentation v 0 d = Inr s)
      \<and> (\<forall>p pre rest. content p = pre @ s @ rest \<longrightarrow> (rest = [] \<or> \<not> numberChar (hd rest)) \<longrightarrow>
            parseElement (at_index p (length pre)) = Inr (w, at_index p (length pre + length s))))"

lemma parses_asI:
  assumes "s \<noteq> []" and "value_start (hd s)" and "\<And>d. getRepresentation v 0 d = Inr s"
    and "\<And>p pre rest. content p = pre @ s @ rest \<Longrightarrow> rest = [] \<or> \<not> numberChar (hd rest) \<Longrightarrow>
            parseElement (at_index p (length pre)) = Inr (w, at_index p (length pre + length s))"
  shows "parses_as v w s"
  using assms by (simp add: parses_as_def)

lemma parses_asD:
  assumes "parses_as v w s"
  shows "s \<noteq> []" and "value_start (hd s)" and "getRepresentation v 0 d = Inr s"
    and "content p = pre @ s @ rest \<Longrightarrow> rest = [] \<or> \<not> numberChar (hd rest) \<Longrightarrow>
           parseElement (at_index p (length pre)) = Inr (w, at_index p (length pre + length s))"
  using assms unfolding parses_as_def by blast+

lemma parses_null: "parses_as makeNull makeNull ''null''"
proof (rule parses_asI)
  show "getRepresentation makeNull 0 d = Inr ''null''" for d
    by (simp add: getRepresentation.simps makeNull_def Value_of_type_def)
  show "value_start (hd ''null'')"
    by (simp add: value_start_def isWhitespace_def)
  fix p :: Parser and pre rest :: string
  assume c: "content p = pre @ ''null'' @ rest"
  then have "currChar (at_index p (length pre)) = CHR ''n''"
    by (intro currChar_split) simp
  moreover have "validateIdentifier (at_index p (length pre)) ''null'' =
      Inr (True, at_index p (length pre + length ''null''))"
    using c by (rule validateIdentifier_at)
  ultimately show "parseElement (at_index p (length pre)) =
      Inr (makeNull, at_index p (length pre + length ''null''))"
    by (subst parseElement.simps) simp
qed simp

lemma parses_true: "parses_as (makeBoolean True) (makeBoolean True) ''true''"
proof (rule parses_asI)
  show "getRepresentation (makeBoolean True) 0 d = Inr ''true''" for d
    by (simp add: getRepresentation.simps makeBoolean_def makeNumber_def toBoolean_def)
  show "value_start (hd ''true'')"
    by (simp add: value_start_def isWhitespace_def)
  fix p :: Parser and pre rest :: string
  assume c: "content p = pre @ ''true'' @ rest"
  then have "currChar (at_index p (length pre)) = CHR ''t''"
    by (intro currChar_split) simp
  moreover have "validateIdentifier (at_index p (length pre)) ''true'' =
      Inr (True, at_index p (length pre + length ''true''))"
    using c by (rule validateIdentifier_at)
  ultimately show "parseElement (at_index p (length pre)) =
      Inr (makeBoolean True, at_index p (length pre + length ''true''))"
    by (subst parseElement.simps) simp
qed simp

lemma parses_false: "parses_as (makeBoolean False) (makeBoolean False) ''false''"
proof (rule parses_asI)
  show "getRepresentation (makeBoolean False) 0 d = Inr ''false''" for d
    by (simp add: getRepresentation.simps makeBoolean_def makeNumber_def toBoolean_def)
  show "value_start (hd ''false'')"
    by (simp add: value_start_def isWhitespace_def)
  fix p :: Parser and pre rest :: string
  assume c: "content p = pre @ ''false'' @ rest"
  then have "currChar (at_index p (length pre)) = CHR ''f''"
    by (intro currChar_split) simp
  moreover have "validateIdentifier (at_index p (length pre)) ''false'' =
      Inr (True, at_index p (length pre + length ''false''))"
    using c by (rule validateIdentifier_at)
  ultimately show "parseElement (at_index p (length pre)) =
      Inr (makeBoolean False, at_index p (length pre + length ''false''))"
    by (subst parseElement.simps) simp
qed simp

lemma parses_string:
  assumes "CHR 0x22 \<notin> set s"
  shows "parses_as (makeString s) (makeString s) (CHR 0x22 # s @ [CHR 0x22])"
proof (rule parses_asI)
  show "getRepresentation (makeString s) 0 d = Inr (CHR 0x22 # s @ [CHR 0x22])" for d
    by (simp add: getRepresentation.simps makeString_def toString_def)
  show "value_start (hd (CHR 0x22 # s @ [CHR 0x22]))"
    by (simp add: value_start_def isWhitespace_def)
  fix p :: Parser and pre rest :: string
  assume "content p = pre @ (CHR 0x22 # s @ [CHR 0x22]) @ rest"
  then have c: "content p = pre @ CHR 0x22 # s @ CHR 0x22 # rest"
    by simp
  then have "currChar (at_index p (length pre)) = CHR 0x22"
    by (rule currChar_split)
  moreover have "parseString (at_index p (length pre)) = Inr (s, at_index p (length pre + length s + 2))"
    using c assms by (rule parseString_at)
  ultimately show "parseElement (at_index p (length pre)) =
      Inr (makeString s, at_index p (length pre + length (CHR 0x22 # s @ [CHR 0x22])))"
    by (subst parseElement.simps) simp
qed simp

text \<open>The texts \<open>std::to_string\<close> produces are taken whole by the number scanner.\<close>

definition number_text :: "string \<Rightarrow> bool" where
  "number_text s =
     (s \<noteq> [] \<and> (hd s = CHR ''-'' \<or> isdigit (hd s)) \<and> (\<forall>c\<in>set s. numberChar c)
      \<and> count_list s CHR ''.'' \<le> 1 \<and> count_list s CHR ''e'' = 0)"

lemma digit_string:
  assumes "set ds \<subseteq> set ''0123456789''"
  shows "\<forall>c\<in>set ds. numberChar c" and "count_list ds CHR ''.'' = 0" and "count_list ds CHR ''e'' = 0"
    and "ds \<noteq> [] \<Longrightarrow> isdigit (hd ds)"
proof -
  have d: "isdigit c" if "c \<in> set ds" for c
    using assms that unfolding isdigit_def by (rule subsetD)
  then show "\<forall>c\<in>set ds. numberChar c"
    by (simp add: numberChar_def)
  have "CHR ''.'' \<notin> set ds" "CHR ''e'' \<notin> set ds"
    using d by (auto simp: isdigit_def)
  then show "count_list ds CHR ''.'' = 0" and "count_list ds CHR ''e'' = 0"
    by (simp_all add: count_list_0_iff)
  show "isdigit (hd ds)" if "ds \<noteq> []"
    using d that by simp
qed

lemma number_text_long: "number_text (to_string_long k)"
proof -
  have ds: "set (digits m) \<subseteq> set ''0123456789''" for m
    by (rule set_digits)
  show ?thesis
    using digit_string [OF ds [of "nat k"]] digit_string [OF ds [of "nat (- k)"]]
    by (simp add: number_text_def to_string_long_def numberChar_def)
qed

lemma number_text_ld: "number_text (to_string_ld x)"
proof -
  obtain ip fr where shape: "to_string_ld x = (if x < 0 then ''-'' else []) @ ip @ ''.'' @ fr"
    and ip: "ip \<noteq> []" and ds: "set (ip @ fr) \<subseteq> set ''0123456789''"
    using to_string_ld_shape [of x] by blast
  have a: "set ip \<subseteq> set ''0123456789''" and b: "set fr \<subseteq> set ''0123456789''"
    using ds by simp_all
  note ip_facts = digit_string [OF a] and fr_facts = digit_string [OF b]
  have chars: "\<forall>c\<in>set (ip @ ''.'' @ fr). numberChar c"
    using ip_facts(1) fr_facts(1) by (auto simp: numberChar_def)
  have points: "count_list (ip @ ''.'' @ fr) CHR ''.'' = 1"
    using ip_facts(2) fr_facts(2) by simp
  have es: "count_list (ip @ ''.'' @ fr) CHR ''e'' = 0"
    using ip_facts(3) fr_facts(3) by simp
  have first: "isdigit (hd (ip @ ''.'' @ fr))"
    using ip_facts(4) ip by simp
  show ?thesis
  proof (cases "x < 0")
    case True
    then show ?thesis
      using chars points es unfolding shape
      by (simp add: number_text_def numberChar_def)
  next
    case False
    then show ?thesis
      using chars points es first ip unfolding shape
      by (simp add: number_text_def)
  qed
qed

lemma value_start_number: "c = CHR ''-'' \<or> isdigit c \<Longrightarrow> value_start c"
  by (auto simp: value_start_def isWhitespace_def isdigit_def)

lemma parses_number:
  assumes "number_restored n"
  shows "\<exists>s. parses_as (makeNumber n) (makeNumber n) s"
proof -
  obtain s where s: "getRepresentation (makeNumber n) 0 0 = Inr s" and restored: "stod s = Inr n"
    using assms by (auto simp: number_restored_def split: sum.splits)
  have any_depth: "getRepresentation (makeNumber n) 0 d = Inr s" for d
    using s by (simp add: getRepresentation.simps makeNumber_def)
  have "s = to_string_long \<lfloor>n\<rfloor> \<or> s = to_string_long \<lceil>n\<rceil> \<or> s = to_string_ld n"
    using s
    by (auto simp: getRepresentation.simps makeNumber_def static_cast_long_def Let_def
        split: sum.splits if_splits)
  then have numtext: "number_text s"
    using number_text_long number_text_ld by auto
  have "parses_as (makeNumber n) (makeNumber n) s"
  proof (rule parses_asI)
    show "s \<noteq> []" using numtext by (simp add: number_text_def)
    show "value_start (hd s)"
      using numtext by (intro value_start_number) (simp add: number_text_def)
    show "getRepresentation (makeNumber n) 0 d = Inr s" for d
      by (rule any_depth)
    fix p :: Parser and pre rest :: string
    assume c: "content p = pre @ s @ rest" and rest: "rest = [] \<or> \<not> numberChar (hd rest)"
    have "content p = pre @ hd s # (tl s @ rest)"
      using c numtext by (simp add: number_text_def)
    then have "currChar (at_index p (length pre)) = hd s"
      by (rule currChar_split)
    then have "parseElement (at_index p (length pre)) = parseNumber (at_index p (length pre))"
      using numtext by (intro number_start_dispatch) (auto simp: number_text_def)
    moreover have "parseNumber (at_index p (length pre)) =
        (case stod s of
           Inr d \<Rightarrow> Inr (makeNumber d, at_index p (length pre + length s))
         | Inl e \<Rightarrow>
             if e = out_of_range
             then Inr (makeNumber 0,
                       at_index (p\<lparr>cout := cout p @ [''[WARNING] At line '' @ to_string_long (currLine p)
                                                @ '': number overflow'' @ [CHR 0x0A]]\<rparr>)
                         (length pre + length s))
             else Inl (e, at_index p (length pre + length s)))"
      using c rest numtext by (intro parseNumber_at) (simp_all add: number_text_def)
    ultimately show "parseElement (at_index p (length pre)) =
        Inr (makeNumber n, at_index p (length pre + length s))"
      using restored by simp
  qed
  then show ?thesis ..
qed

text \<open>The loop of \<open>parseArray\<close> on the rendering of the elements.\<close>

lemma arrayLoop_elements:
  assumes "list_all2 (\<lambda>x y. \<exists>s. parses_as x y s) xs ys" and "xs \<noteq> []"
  shows "\<exists>t. t \<noteq> [] \<and> value_start (hd t)
           \<and> (\<forall>d repr. arrayRepr xs 0 d repr = Inr (repr @ t))
           \<and> (\<forall>p pre rest acc. content p = pre @ t @ CHR '']'' # rest \<longrightarrow>
                 arrayLoop (at_index p (length pre)) acc =
                   Inr (acc @ ys, at_index p (length pre + length t)))"
  using assms
proof (induction xs ys rule: list_all2_induct)
  case Nil
  then show ?case by simp
next
  case (Cons x xs y ys)
  obtain s where s: "parses_as x y s"
    using Cons.hyps(1) ..
  have same_length: "xs = [] \<longleftrightarrow> ys = []"
    using Cons.hyps(2) by (auto dest: list_all2_lengthD)
  note s_ne = parses_asD(1) [OF s] and s_start = parses_asD(2) [OF s]
    and s_repr = parses_asD(3) [OF s] and s_parse = parses_asD(4) [OF s]
  have bracket: "\<not> numberChar CHR '']''" "\<not> numberChar CHR '',''"
    "\<not> isWhitespace CHR '']''" "\<not> isWhitespace CHR '',''"
    by (simp_all add: numberChar_def isdigit_def isWhitespace_def)
  have first: "skipWhitespace (at_index p (length pre)) = at_index p (length pre)
      \<and> \<not> isEOF (at_index p (length pre)) \<and> currChar (at_index p (length pre)) \<noteq> CHR '']''"
    if "content p = pre @ s @ rest" for p :: Parser and pre rest
  proof -
    have "content p = pre @ hd s # (tl s @ rest)"
      using that s_ne by simp
    then have "currChar (at_index p (length pre)) = hd s" "\<not> isEOF (at_index p (length pre))"
      using currChar_split [of p pre "hd s" "tl s @ rest"] by simp_all
    then show ?thesis
      using s_start by (simp add: skipWhitespace_stays value_start_def)
  qed
  show ?case
  proof (cases "xs = []")
    case True
    have repr: "arrayRepr (x # xs) 0 d repr = Inr (repr @ s)" for d repr
      using True s_repr by simp
    have loop: "arrayLoop (at_index p (length pre)) acc = Inr (acc @ y # ys, at_index p (length pre + length s))"
      if c: "content p = pre @ s @ CHR '']'' # rest" for p :: Parser and pre rest acc
    proof -
      have elem: "parseElement (at_index p (length pre)) = Inr (y, at_index p (length pre + length s))"
        using s_parse [OF c] bracket by simp
      have "content p = (pre @ s) @ CHR '']'' # rest"
        using c by simp
      then have after: "currChar (at_index p (length (pre @ s))) = CHR '']''"
        by (rule currChar_split)
      then have "skipWhitespace (at_index p (length pre + length s)) = at_index p (length pre + length s)"
        using bracket by (simp add: skipWhitespace_stays)
      then show ?thesis
        using first [OF c] elem after True same_length
        by (subst arrayLoop.simps) (simp add: Let_def)
    qed
    show ?thesis
      using s_ne s_start repr loop by (intro exI [of _ s]) simp
  next
    case False
    then obtain t where t_ne: "t \<noteq> []" and t_start: "value_start (hd t)"
      and t_repr: "\<And>d repr. arrayRepr xs 0 d repr = Inr (repr @ t)"
      and t_loop: "\<And>p pre rest acc. content p = pre @ t @ CHR '']'' # rest \<Longrightarrow>
                 arrayLoop (at_index p (length pre)) acc = Inr (acc @ ys, at_index p (length pre + length t))"
      using Cons.IH by auto
    have repr: "arrayRepr (x # xs) 0 d repr = Inr (repr @ s @ '','' @ t)" for d repr
      using False s_repr t_repr by simp
    have loop: "arrayLoop (at_index p (length pre)) acc =
        Inr (acc @ y # ys, at_index p (length pre + length (s @ '','' @ t)))"
      if c: "content p = pre @ (s @ '','' @ t) @ CHR '']'' # rest" for p :: Parser and pre rest acc
    proof -
      have c1: "content p = pre @ s @ (CHR '','' # t @ CHR '']'' # rest)"
        using c by simp
      have elem: "parseElement (at_index p (length pre)) = Inr (y, at_index p (length pre + length s))"
        using s_parse [OF c1] bracket by simp
      have "content p = (pre @ s) @ CHR '','' # (t @ CHR '']'' # rest)"
        using c by simp
      then have after: "currChar (at_index p (length (pre @ s))) = CHR '',''"
        by (rule currChar_split)
      then have skip: "skipWhitespace (at_index p (length pre + length s)) = at_index p (length pre + length s)"
        using bracket by (simp add: skipWhitespace_stays)
      have "content p = (pre @ s @ '','') @ t @ CHR '']'' # rest"
        using c by simp
      then have "arrayLoop (at_index p (length (pre @ s @ '',''))) (acc @ [y]) =
          Inr ((acc @ [y]) @ ys, at_index p (length (pre @ s @ '','') + length t))"
        by (rule t_loop)
      then show ?thesis
        using first [OF c1] elem after skip
        by (subst arrayLoop.simps) (simp add: Let_def add.assoc)
    qed
    show ?thesis
      using s_ne s_start repr loop by (intro exI [of _ "s @ '','' @ t"]) simp
  qed
qed

lemma parses_array:
  assumes "list_all2 (\<lambda>x y. \<exists>s. parses_as x y s) xs ys"
  shows "\<exists>s. parses_as (makeArray xs) (makeArray ys) s"
proof -
  obtain body where repr: "\<And>d. arrayRepr xs 0 d ''['' = Inr (''['' @ body)"
    and start: "body = [] \<or> value_start (hd body)"
    and loop: "\<And>p pre rest. content p = pre @ body @ CHR '']'' # rest \<Longrightarrow>
        arrayLoop (at_index p (length pre)) [] = Inr (ys, at_index p (length pre + length body))"
  proof (cases "xs = []")
    case True
    then have ys: "ys = []"
      using assms by simp
    have "arrayLoop (at_index p (length pre)) [] = Inr (ys, at_index p (length pre + length ([] :: string)))"
      if "content p = pre @ [] @ CHR '']'' # rest" for p :: Parser and pre rest
    proof -
      have "content p = pre @ CHR '']'' # rest"
        using that by simp
      then have "currChar (at_index p (length pre)) = CHR '']''"
        by (rule currChar_split)
      then show ?thesis
        using ys by (subst arrayLoop.simps) simp
    qed
    then show ?thesis
      using True by (intro that [of "[]"]) simp_all
  next
    case False
    then obtain t where "t \<noteq> []" "value_start (hd t)"
      "\<And>d repr. arrayRepr xs 0 d repr = Inr (repr @ t)"
      "\<And>p pre rest acc. content p = pre @ t @ CHR '']'' # rest \<Longrightarrow>
          arrayLoop (at_index p (length pre)) acc = Inr (acc @ ys, at_index p (length pre + length t))"
      using arrayLoop_elements [OF assms] by blast
    then show ?thesis
      using that [of t] by simp
  qed
  have "parses_as (makeArray xs) (makeArray ys) (''['' @ body @ '']'')"
  proof (rule parses_asI)
    show "''['' @ body @ '']'' \<noteq> []" by simp
    show "value_start (hd (''['' @ body @ '']''))"
      by (simp add: value_start_def isWhitespace_def)
    show "getRepresentation (makeArray xs) 0 d = Inr (''['' @ body @ '']'')" for d
      using repr [of d] by (simp add: getRepresentation.simps makeArray_def toArray_def std_string_def)
    fix p :: Parser and pre rest :: string
    assume "content p = pre @ (''['' @ body @ '']'') @ rest"
    then have c: "content p = pre @ CHR ''['' # (body @ CHR '']'' # rest)"
      by simp
    have open_bracket: "currChar (at_index p (length pre)) = CHR ''[''"
      using c by (rule currChar_split)
    have c1: "content p = (pre @ ''['') @ body @ CHR '']'' # rest"
      using c by simp
    have inner: "arrayLoop (at_index p (length (pre @ ''[''))) [] =
        Inr (ys, at_index p (length (pre @ ''['') + length body))"
      using c1 by (rule loop)
    have "content p = (pre @ ''['') @ hd (body @ '']'') # (tl (body @ '']'') @ rest)"
      using c by (cases body) simp_all
    then have "currChar (at_index p (length (pre @ ''[''))) = hd (body @ '']'')"
      by (rule currChar_split)
    moreover have "\<not> isWhitespace (hd (body @ '']''))"
      using start by (cases body) (simp_all add: value_start_def isWhitespace_def)
    ultimately have skip: "skipWhitespace (at_index p (length (pre @ ''[''))) = at_index p (length (pre @ ''[''))"
      by (simp add: skipWhitespace_stays)
    have "content p = (pre @ ''['' @ body) @ CHR '']'' # rest"
      using c by simp
    then have close_bracket: "currChar (at_index p (length (pre @ ''['' @ body))) = CHR '']''"
      by (rule currChar_split)
    have "parseArray (at_index p (length pre)) =
        Inr (makeArray ys, at_index p (length pre + length (''['' @ body @ '']'')))"
      using open_bracket skip inner close_bracket
      by (subst parseArray.simps) (simp add: Let_def consume_def)
    then show "parseElement (at_index p (length pre)) =
        Inr (makeArray ys, at_index p (length pre + length (''['' @ body @ '']'')))"
      using open_bracket by (subst parseElement.simps) simp
  qed
  then show ?thesis ..
qed

text \<open>The loop of \<open>parseObject\<close> on the rendering of the entries.\<close>

lemma assign_entry_new: "k \<notin> fst ` set acc \<Longrightarrow> assign_entry k x acc = (k, x) # acc"
  by (simp add: assign_entry_def)

lemma at_index_eq_iff [simp]: "(at_index p i = at_index p j) = (i = j)"
proof
  assume "at_index p i = at_index p j"
  then have "currIdx (at_index p i) = currIdx (at_index p j)"
    by simp
  then show "i = j" by simp
qed simp

lemma currChar_at:
  "content p = pre @ c # rest \<Longrightarrow> i = length pre \<Longrightarrow> currChar (at_index p i) = c"
  by (simp add: currChar_split)

lemma stays_at:
  "content p = pre @ c # rest \<Longrightarrow> i = length pre \<Longrightarrow> \<not> isWhitespace c \<Longrightarrow>
     skipWhitespace (at_index p i) = at_index p i"
  by (simp add: skipWhitespace_stays currChar_split)

lemma objectLoop_entry:
  assumes c: "content p = pre @ CHR 0x22 # k @ CHR 0x22 # CHR '':'' # s @ c0 # rest"
    and k: "CHR 0x22 \<notin> set k" and s: "parses_as x y s"
    and c0: "c0 = CHR '','' \<or> c0 = CHR ''}''" and fresh: "k \<notin> fst ` set acc"
  shows "objectLoop (at_index p (length pre)) (makeObject acc) =
           (if c0 = CHR '',''
            then objectLoop (at_index p (length pre + length k + length s + 4)) (makeObject ((k, y) # acc))
            else Inr (makeObject ((k, y) # acc), at_index p (length pre + length k + length s + 3)))"
proof -
  note s_ne = parses_asD(1) [OF s] and s_start = parses_asD(2) [OF s]
  define i1 where "i1 = length pre + length k + 2"
  define i2 where "i2 = length pre + length k + 3"
  define i3 where "i3 = length pre + length k + length s + 3"
  define i4 where "i4 = length pre + length k + length s + 4"
  have plain: "\<not> isWhitespace CHR 0x22" "\<not> isWhitespace CHR '':''" "\<not> isWhitespace c0"
    "\<not> numberChar c0" "\<not> isWhitespace (hd s)"
    using c0 s_start by (auto simp: isWhitespace_def numberChar_def isdigit_def value_start_def)
  have a: "currChar (at_index p (length pre)) = CHR 0x22" "\<not> isEOF (at_index p (length pre))"
    using c currChar_split [of p pre "CHR 0x22" "k @ CHR 0x22 # CHR '':'' # s @ c0 # rest"] by simp_all
  have a_skip: "skipWhitespace (at_index p (length pre)) = at_index p (length pre)"
    using c plain(1) by (intro stays_at [where pre = pre and c = "CHR 0x22"]) simp_all
  have b: "parseString (at_index p (length pre)) = Inr (k, at_index p i1)"
    unfolding i1_def using c k by (rule parseString_at)
  have c1: "content p = (pre @ CHR 0x22 # k @ [CHR 0x22]) @ CHR '':'' # (s @ c0 # rest)"
    using c by simp
  have colon: "currChar (at_index p i1) = CHR '':''"
    using c1 by (rule currChar_at) (simp add: i1_def)
  have colon_skip: "skipWhitespace (at_index p i1) = at_index p i1"
    using c1 _ plain(2) by (rule stays_at) (simp add: i1_def)
  have next1: "advance (at_index p i1) = at_index p i2"
    by (simp add: i1_def i2_def)
  have c2: "content p = (pre @ CHR 0x22 # k @ CHR 0x22 # '':'') @ hd s # (tl s @ c0 # rest)"
    using c s_ne by simp
  have value_skip: "skipWhitespace (at_index p i2) = at_index p i2"
    using c2 _ plain(5) by (rule stays_at) (simp add: i2_def)
  have c3: "content p = (pre @ CHR 0x22 # k @ CHR 0x22 # '':'') @ s @ c0 # rest"
    using c by simp
  have "parseElement (at_index p (length (pre @ CHR 0x22 # k @ CHR 0x22 # '':''))) =
      Inr (y, at_index p (length (pre @ CHR 0x22 # k @ CHR 0x22 # '':'') + length s))"
    using parses_asD(4) [OF s c3] plain by simp
  moreover have "length (pre @ CHR 0x22 # k @ CHR 0x22 # '':'') = i2"
    "length (pre @ CHR 0x22 # k @ CHR 0x22 # '':'') + length s = i3"
    by (simp_all add: i2_def i3_def)
  ultimately have elem: "parseElement (at_index p i2) = Inr (y, at_index p i3)"
    by (simp only:)
  have c4: "content p = (pre @ CHR 0x22 # k @ CHR 0x22 # '':'' @ s) @ c0 # rest"
    using c by simp
  have after: "currChar (at_index p i3) = c0"
    using c4 by (rule currChar_at) (simp add: i3_def)
  have after_skip: "skipWhitespace (at_index p i3) = at_index p i3"
    using c4 _ plain(3) by (rule stays_at) (simp add: i3_def)
  have next2: "advance (at_index p i3) = at_index p i4"
    by (simp add: i3_def i4_def)
  have store: "assign_key (makeObject acc) k y = makeObject ((k, y) # acc)"
    using fresh by (simp add: assign_key_def makeObject_def assign_entry_new)
  have "objectLoop (at_index p (length pre)) (makeObject acc) =
           (if c0 = CHR '',''
            then objectLoop (at_index p i4) (makeObject ((k, y) # acc))
            else Inr (makeObject ((k, y) # acc), at_index p i3))"
    using c0
    by (subst objectLoop.simps)
      (simp only: a a_skip b colon colon_skip next1 value_skip elem after after_skip next2 store
        Let_def sum.case prod.case simp_thms if_True if_False not_False_eq_True not_not, auto)
  then show ?thesis
    by (simp only: i3_def i4_def)
qed

text \<open>An entry as rendered and as parsed: the same key, with no quote in it.\<close>

definition entry_parses_as :: "string \<times> Value \<Rightarrow> string \<times> Value \<Rightarrow> bool" where
  "entry_parses_as kv kw =
     (fst kw = fst kv \<and> CHR 0x22 \<notin> set (fst kv) \<and> (\<exists>s. parses_as (snd kv) (snd kw) s))"

lemma objectLoop_entries:
  assumes "list_all2 entry_parses_as kvs kws" and "kvs \<noteq> []"
  shows "\<exists>t. t \<noteq> [] \<and> hd t = CHR 0x22
           \<and> (\<forall>d repr. objectRepr kvs 0 d repr = Inr (repr @ t))
           \<and> (\<forall>p pre rest acc. content p = pre @ t @ CHR ''}'' # rest \<longrightarrow>
                 distinct (map fst (acc @ kvs)) \<longrightarrow>
                 objectLoop (at_index p (length pre)) (makeObject acc) =
                   Inr (makeObject (rev kws @ acc), at_index p (length pre + length t)))"
  using assms
proof (induction kvs kws rule: list_all2_induct)
  case Nil
  then show ?case by simp
next
  case (Cons kv kvs kw kws)
  obtain k x where kv: "kv = (k, x)" by (cases kv)
  obtain y where kw: "kw = (k, y)"
    using Cons.hyps(1) kv by (cases kw) (simp add: entry_parses_as_def)
  obtain s where k: "CHR 0x22 \<notin> set k" and s: "parses_as x y s"
    using Cons.hyps(1) kv kw by (auto simp: entry_parses_as_def)
  have same_length: "kvs = [] \<longleftrightarrow> kws = []"
    using Cons.hyps(2) by (auto dest: list_all2_lengthD)
  note s_repr = parses_asD(3) [OF s]
  let ?e = "CHR 0x22 # k @ CHR 0x22 # CHR '':'' # s"
  show ?case
  proof (cases "kvs = []")
    case True
    have repr: "objectRepr (kv # kvs) 0 d repr = Inr (repr @ ?e)" for d repr
      using True s_repr kv by (simp add: Let_def)
    have loop: "objectLoop (at_index p (length pre)) (makeObject acc) =
        Inr (makeObject (rev (kw # kws) @ acc), at_index p (length pre + length ?e))"
      if c: "content p = pre @ ?e @ CHR ''}'' # rest" and d: "distinct (map fst (acc @ kv # kvs))"
      for p :: Parser and pre rest acc
    proof -
      have c1: "content p = pre @ CHR 0x22 # k @ CHR 0x22 # CHR '':'' # s @ CHR ''}'' # rest"
        using c by simp
      have fresh: "k \<notin> fst ` set acc"
        using d kv by auto
      have "objectLoop (at_index p (length pre)) (makeObject acc) =
          Inr (makeObject ((k, y) # acc), at_index p (length pre + length k + length s + 3))"
        using objectLoop_entry [OF c1 k s _ fresh] by simp
      then show ?thesis
        using True same_length kw by simp
    qed
    show ?thesis
      using repr loop by (intro exI [of _ ?e]) simp
  next
    case False
    then obtain t where t_ne: "t \<noteq> []" and t_start: "hd t = CHR 0x22"
      and t_repr: "\<And>d repr. objectRepr kvs 0 d repr = Inr (repr @ t)"
      and t_loop: "\<And>p pre rest acc. content p = pre @ t @ CHR ''}'' # rest \<Longrightarrow>
                 distinct (map fst (acc @ kvs)) \<Longrightarrow>
                 objectLoop (at_index p (length pre)) (makeObject acc) =
                   Inr (makeObject (rev kws @ acc), at_index p (length pre + length t))"
      using Cons.IH by auto
    have repr: "objectRepr (kv # kvs) 0 d repr = Inr (repr @ ?e @ '','' @ t)" for d repr
      using False s_repr t_repr kv by (simp add: Let_def)
    have loop: "objectLoop (at_index p (length pre)) (makeObject acc) =
        Inr (makeObject (rev (kw # kws) @ acc), at_index p (length pre + length (?e @ '','' @ t)))"
      if c: "content p = pre @ (?e @ '','' @ t) @ CHR ''}'' # rest"
        and d: "distinct (map fst (acc @ kv # kvs))"
      for p :: Parser and pre rest acc
    proof -
      have c1: "content p = pre @ CHR 0x22 # k @ CHR 0x22 # CHR '':'' # s @ CHR '','' # (t @ CHR ''}'' # rest)"
        using c by simp
      have fresh: "k \<notin> fst ` set acc"
        using d kv by auto
      have step: "objectLoop (at_index p (length pre)) (makeObject acc) =
          objectLoop (at_index p (length pre + length k + length s + 4)) (makeObject ((k, y) # acc))"
        using objectLoop_entry [OF c1 k s _ fresh] by simp
      have c2: "content p = (pre @ ?e @ '','') @ t @ CHR ''}'' # rest"
        using c by simp
      have d2: "distinct (map fst (((k, y) # acc) @ kvs))"
        using d kv by simp
      have idx: "length (pre @ ?e @ '','') = length pre + length k + length s + 4"
        by simp
      have "objectLoop (at_index p (length (pre @ ?e @ '',''))) (makeObject ((k, y) # acc)) =
          Inr (makeObject (rev kws @ (k, y) # acc), at_index p (length (pre @ ?e @ '','') + length t))"
        using c2 d2 by (rule t_loop)
      then have "objectLoop (at_index p (length pre + length k + length s + 4)) (makeObject ((k, y) # acc)) =
          Inr (makeObject (rev kws @ (k, y) # acc), at_index p (length pre + length k + length s + 4 + length t))"
        by (simp only: idx)
      then show ?thesis
        using step kw by simp
    qed
    show ?thesis
      using repr loop by (intro exI [of _ "?e @ '','' @ t"]) simp
  qed
qed

lemma parses_object:
  assumes "list_all2 entry_parses_as kvs kws" and "distinct (map fst kvs)"
  shows "\<exists>s. parses_as (makeObject kvs) (makeObject (rev kws)) s"
proof -
  obtain body where repr: "\<And>d. objectRepr kvs 0 d ''{'' = Inr (''{'' @ body)"
    and start: "body = [] \<or> hd body = CHR 0x22"
    and loop: "\<And>p pre rest. content p = pre @ body @ CHR ''}'' # rest \<Longrightarrow>
        objectLoop (at_index p (length pre)) (makeObject []) =
          Inr (makeObject (rev kws), at_index p (length pre + length body))"
  proof (cases "kvs = []")
    case True
    then have kws: "kws = []"
      using assms(1) by simp
    have "objectLoop (at_index p (length pre)) (makeObject []) =
        Inr (makeObject (rev kws), at_index p (length pre + length ([] :: string)))"
      if "content p = pre @ [] @ CHR ''}'' # rest" for p :: Parser and pre rest
    proof -
      have "content p = pre @ CHR ''}'' # rest"
        using that by simp
      then have "currChar (at_index p (length pre)) = CHR ''}''"
        by (rule currChar_split)
      then show ?thesis
        using kws by (subst objectLoop.simps) simp
    qed
    then show ?thesis
      using True by (intro that [of "[]"]) simp_all
  next
    case False
    then obtain t where t: "t \<noteq> []" "hd t = CHR 0x22"
      "\<And>d repr. objectRepr kvs 0 d repr = Inr (repr @ t)"
      "\<And>p pre rest acc. content p = pre @ t @ CHR ''}'' # rest \<Longrightarrow>
          distinct (map fst (acc @ kvs)) \<Longrightarrow>
          objectLoop (at_index p (length pre)) (makeObject acc) =
            Inr (makeObject (rev kws @ acc), at_index p (length pre + length t))"
      using objectLoop_entries [OF assms(1)] by blast
    have "objectLoop (at_index p (length pre)) (makeObject []) =
        Inr (makeObject (rev kws), at_index p (length pre + length t))"
      if "content p = pre @ t @ CHR ''}'' # rest" for p :: Parser and pre rest
      using t(4) [OF that, of "[]"] assms(2) by simp
    then show ?thesis
      using that [of t] t(2,3) by simp
  qed
  have "parses_as (makeObject kvs) (makeObject (rev kws)) (''{'' @ body @ ''}'')"
  proof (rule parses_asI)
    show "''{'' @ body @ ''}'' \<noteq> []" by simp
    show "value_start (hd (''{'' @ body @ ''}''))"
      by (simp add: value_start_def isWhitespace_def)
    show "getRepresentation (makeObject kvs) 0 d = Inr (''{'' @ body @ ''}'')" for d
      using repr [of d] by (simp add: getRepresentation.simps makeObject_def toObject_def std_string_def)
    fix p :: Parser and pre rest :: string
    assume "content p = pre @ (''{'' @ body @ ''}'') @ rest"
    then have c: "content p = pre @ CHR ''{'' # (body @ CHR ''}'' # rest)"
      by simp
    have open_brace: "currChar (at_index p (length pre)) = CHR ''{''"
      using c by (rule currChar_split)
    have next1: "advance (at_index p (length pre)) = at_index p (length pre + 1)"
      by simp
    have c1: "content p = (pre @ ''{'') @ body @ CHR ''}'' # rest"
      using c by simp
    have "objectLoop (at_index p (length (pre @ ''{''))) (makeObject []) =
        Inr (makeObject (rev kws), at_index p (length (pre @ ''{'') + length body))"
      using c1 by (rule loop)
    moreover have "length (pre @ ''{'') = length pre + 1"
      "length pre + 1 + length body = length pre + length body + 1"
      by simp_all
    ultimately have inner: "objectLoop (at_index p (length pre + 1)) (makeObject []) =
        Inr (makeObject (rev kws), at_index p (length pre + length body + 1))"
      by (simp only:)
    have c2: "content p = (pre @ ''{'') @ hd (body @ ''}'') # (tl (body @ ''}'') @ rest)"
      using c by (cases body) simp_all
    have "\<not> isWhitespace (hd (body @ ''}''))"
      using start by (cases body) (auto simp: isWhitespace_def)
    then have skip: "skipWhitespace (at_index p (length pre + 1)) = at_index p (length pre + 1)"
      using c2 by (intro stays_at [OF c2]) simp_all
    have c3: "content p = (pre @ ''{'' @ body) @ CHR ''}'' # rest"
      using c by simp
    have close_brace: "currChar (at_index p (length pre + length body + 1)) = CHR ''}''"
      using c3 by (rule currChar_at) simp
    have next2: "advance (at_index p (length pre + length body + 1)) =
        at_index p (length pre + length (''{'' @ body @ ''}''))"
      by simp
    have "parseObject (at_index p (length pre)) =
        Inr (makeObject (rev kws), at_index p (length pre + length (''{'' @ body @ ''}'')))"
      by (subst parseObject.simps)
        (simp only: open_brace next1 skip inner close_brace next2 consume_def Let_def if_True
          if_False sum.case prod.case snd_conv simp_thms)
    then show "parseElement (at_index p (length pre)) =
        Inr (makeObject (rev kws), at_index p (length pre + length (''{'' @ body @ ''}'')))"
      using open_brace by (subst parseElement.simps) simp
  qed
  then show ?thesis ..
qed

lemma parses_tree: "round_trip_tree v \<Longrightarrow> \<exists>s. parses_as v (reparsed v) s"
proof (induction v)
  case (Value t m a s n)
  show ?case
  proof (cases t)
    case ValueType_Object
    then have shape: "a = []" "s = []" "n = 0" "distinct (map fst m)"
      and entries: "\<forall>kv\<in>set m. CHR 0x22 \<notin> set (fst kv) \<and> round_trip_tree (snd kv)"
      using Value.prems by simp_all
    have "entry_parses_as kv (map_prod id reparsed kv)" if "kv \<in> set m" for kv
    proof -
      have "snd kv \<in> Basic_BNFs.snds kv"
        by (cases kv) simp
      then have "\<exists>s. parses_as (snd kv) (reparsed (snd kv)) s"
        using Value.IH(1) [OF that] entries that by blast
      then show ?thesis
        using entries that by (cases kv) (auto simp: entry_parses_as_def)
    qed
    then have "list_all2 entry_parses_as m (map (map_prod id reparsed) m)"
      by (simp add: list_all2_map2 list_all2_same)
    then have "\<exists>s. parses_as (makeObject m) (makeObject (rev (map (map_prod id reparsed) m))) s"
      using shape(4) by (rule parses_object)
    then show ?thesis
      using ValueType_Object shape by (simp add: makeObject_def)
  next
    case ValueType_Array
    then have shape: "m = []" "s = []" "n = 0" and elements: "\<forall>x\<in>set a. round_trip_tree x"
      using Value.prems by simp_all
    have "list_all2 (\<lambda>x y. \<exists>s. parses_as x y s) a (map reparsed a)"
      using Value.IH(2) elements by (simp add: list_all2_map2 list_all2_same)
    then have "\<exists>s. parses_as (makeArray a) (makeArray (map reparsed a)) s"
      by (rule parses_array)
    then show ?thesis
      using ValueType_Array shape by (simp add: makeArray_def)
  next
    case ValueType_String
    then have "m = []" "a = []" "n = 0" "CHR 0x22 \<notin> set s"
      using Value.prems by simp_all
    then show ?thesis
      using ValueType_String parses_string [of s] by (auto simp: makeString_def)
  next
    case ValueType_Number
    then have "m = []" "a = []" "s = []" "number_restored n"
      using Value.prems by simp_all
    then show ?thesis
      using ValueType_Number parses_number [of n] by (simp add: makeNumber_def)
  next
    case ValueType_Boolean
    then have "m = []" "a = []" "s = []" "n = 0 \<or> n = 1"
      using Value.prems by simp_all
    then show ?thesis
      using ValueType_Boolean parses_true parses_false
      by (auto simp: makeBoolean_def makeNumber_def)
  next
    case ValueType_Null
    then have "m = []" "a = []" "s = []" "n = 0"
      using Value.prems by simp_all
    then show ?thesis
      using ValueType_Null parses_null by (auto simp: makeNull_def Value_of_type_def)
  next
    case ValueType_Unknown
    then show ?thesis
      using Value.prems by simp
  qed
qed

text \<open>That tree is the rendered one but for the order of the entries.\<close>

lemma same_tree_reparsed: "round_trip_tree v \<Longrightarrow> same_tree v (reparsed v)"
proof (induction v)
  case (Value t m a s n)
  have elements: "list_all2 same_tree a (map reparsed a)" if "\<forall>x\<in>set a. round_trip_tree x"
    using Value.IH(2) that by (simp add: list_all2_map2 list_all2_same)
  have entries: "same_tree (snd kv) (snd kw)"
    if d: "distinct (map fst m)" and ok: "\<forall>kv\<in>set m. round_trip_tree (snd kv)"
      and kv: "kv \<in> set m" and kw: "kw \<in> set (rev (map (map_prod id reparsed) m))"
      and key: "fst kw = fst kv" for kv kw
  proof -
    obtain kv' where kv': "kv' \<in> set m" and kw_eq: "kw = map_prod id reparsed kv'"
      using kw by auto
    have "fst kv' = fst kv"
      using key kw_eq by (cases kv') simp
    then have "kv' = kv"
      using d kv kv' by (metis eq_key_imp_eq_value prod.collapse)
    moreover have "snd kv \<in> Basic_BNFs.snds kv"
      by (cases kv) simp
    then have "same_tree (snd kv) (reparsed (snd kv))"
      using Value.IH(1) [OF kv] ok kv by blast
    ultimately show ?thesis
      using kw_eq by (cases kv) simp
  qed
  have keys: "fst ` set (rev (map (map_prod id reparsed) m)) = fst ` set m"
    by (force simp: image_iff)
  show ?case
  proof (cases t)
    case ValueType_Object
    then have "a = []" "distinct (map fst m)" "\<forall>kv\<in>set m. round_trip_tree (snd kv)"
      using Value.prems by simp_all
    then show ?thesis
      using keys entries by simp
  next
    case ValueType_Array
    then have "m = []" "\<forall>x\<in>set a. round_trip_tree x"
      using Value.prems by simp_all
    then show ?thesis
      using elements by simp
  next
    case ValueType_String
    then show ?thesis
      using Value.prems by simp
  next
    case ValueType_Number
    then show ?thesis
      using Value.prems by simp
  next
    case ValueType_Boolean
    then show ?thesis
      using Value.prems by simp
  next
    case ValueType_Null
    then show ?thesis
      using Value.prems by simp
  next
    case ValueType_Unknown
    then show ?thesis
      using Value.prems by simp
  qed
qed

subsection \<open>Numbers that \<open>std::stod\<close> restores\<close>

text \<open>
  The decimal digits written for a number are read back as that number. So a Number is
  restored from its rendering when the rendering loses nothing and the value is a
  \<open>double\<close>: every integer of magnitude up to \<open>2^53\<close>, and every \<open>double\<close> below
  \<open>2^63\<close> in magnitude with at most six digits after the point.
\<close>

lemma digit_value_nth: "d < 10 \<Longrightarrow> digit_value (''0123456789'' ! d) = d"
proof -
  assume "d < 10"
  then have "d = 0 \<or> d = 1 \<or> d = 2 \<or> d = 3 \<or> d = 4 \<or> d = 5 \<or> d = 6 \<or> d = 7 \<or> d = 8 \<or> d = 9"
    by arith
  then show ?thesis
    by (elim disjE) (simp_all add: digit_value_def)
qed

lemma decimal_value_snoc: "decimal_value (xs @ [c]) = 10 * decimal_value xs + digit_value c"
  by (simp add: decimal_value_def)

lemma decimal_value_digits: "decimal_value (digits n) = n"
proof (induction n rule: digits.induct)
  case (1 n)
  show ?case
  proof (cases "n < 10")
    case True
    then show ?thesis
      using digit_value_nth [of n] by (simp add: digits_small decimal_value_def)
  next
    case False
    then have "decimal_value (digits (n div 10)) = n div 10"
      using 1 by simp
    moreover have "digit_value (''0123456789'' ! (n mod 10)) = n mod 10"
      by (rule digit_value_nth) simp
    ultimately show ?thesis
      using False by (simp only: digits_large decimal_value_snoc) simp
  qed
qed

lemma decimal_value_append:
  "decimal_value (xs @ ys) = decimal_value xs * 10 ^ length ys + decimal_value ys"
proof (induction ys rule: rev_induct)
  case Nil
  show ?case by (simp add: decimal_value_def)
next
  case (snoc c ys)
  have "decimal_value (xs @ ys @ [c]) = 10 * decimal_value (xs @ ys) + digit_value c"
    using decimal_value_snoc [of "xs @ ys" c] by simp
  then show ?case
    using snoc by (simp add: decimal_value_snoc algebra_simps)
qed

lemma decimal_value_zeros: "decimal_value (replicate k CHR ''0'') = 0"
proof (induction k)
  case 0
  show ?case by (simp add: decimal_value_def)
next
  case (Suc k)
  have "replicate (Suc k) CHR ''0'' = replicate k CHR ''0'' @ ''0''"
    by (simp add: replicate_append_same)
  then show ?case
    using Suc by (simp only: decimal_value_snoc) (simp add: digit_value_def)
qed

lemma all_isdigit_digits: "\<forall>c\<in>set (digits n). isdigit c"
  using set_digits [of n] unfolding isdigit_def by blast

lemma hd_digits: "isdigit (hd (digits n))"
  using all_isdigit_digits [of n] digits_not_Nil [of n] hd_in_set by blast

lemma strtod_decimal_long: "strtod_decimal (to_string_long k) = Some (of_int k)"
proof -
  define m where "m = nat \<bar>k\<bar>"
  have scan: "takeWhile isdigit (digits m) = digits m" "dropWhile isdigit (digits m) = []"
    using all_isdigit_digits [of m] by (simp_all add: takeWhile_eq_all_conv)
  have plain: "hd (digits m) \<noteq> CHR ''-''" "hd (digits m) \<noteq> CHR ''+''"
    using hd_digits [of m] by (auto simp: isdigit_def)
  have m: "rat_of_nat m = \<bar>rat_of_int k\<bar>"
    by (simp add: m_def)
  show ?thesis
  proof (cases "k < 0")
    case True
    then have "to_string_long k = CHR ''-'' # digits m"
      by (simp add: to_string_long_def m_def abs_if)
    then show ?thesis
      using True
      by (simp add: strtod_decimal_def Let_def scan exponent_part_def pow_int_def
          decimal_value_digits m)
  next
    case False
    then have "to_string_long k = digits m"
      by (simp add: to_string_long_def m_def abs_if)
    then show ?thesis
      using False
      by (simp add: strtod_decimal_def Let_def scan plain exponent_part_def pow_int_def
          decimal_value_digits m)
  qed
qed

lemma round_half_even_int: "round_half_even (of_int z) = z"
  by (simp add: round_half_even_def)

lemma pow_int_pos: "0 < pow_int 2 e"
  by (simp add: pow_int_def)

lemma to_double_integer:
  assumes "\<bar>k\<bar> \<le> 2 ^ 53"
  shows "to_double (of_int k) = Inr (of_int k)"
proof (cases "k = 0")
  case True
  then show ?thesis by (simp add: to_double_def)
next
  case False
  define m where "m = nat \<bar>k\<bar>"
  define f where "f = floorlog 2 m"
  define a :: rat where "a = \<bar>of_int k\<bar>"
  have m_pos: "0 < m"
    using False by (simp add: m_def)
  have a_m: "a = of_nat m"
    by (simp add: a_def m_def)
  have m_le: "m \<le> 2 ^ 53"
    using assms by (simp add: m_def nat_le_iff)
  have lo: "2 ^ (f - 1) \<le> m" and hi: "m < 2 ^ f"
    using floorlog_bounds [of m 2] m_pos by (simp_all add: f_def)
  have f_pos: "0 < f"
  proof (rule ccontr)
    assume "\<not> 0 < f"
    then have "f = 0" by simp
    then show False using hi m_pos by simp
  qed
  have f_le: "f - 1 \<le> 53"
  proof (rule power_le_imp_le_exp)
    show "(1::nat) < 2"
      by simp
    show "(2::nat) ^ (f - 1) \<le> 2 ^ 53"
      using lo m_le by (rule order_trans)
  qed
  have one_le: "1 \<le> a"
    using m_pos by (simp add: a_m)
  have binade: "binade a = int f - 1"
    using one_le by (simp add: binade_def a_m f_def)
  have "a \<le> 2 ^ 53"
    using m_le unfolding a_m by (metis of_nat_le_iff of_nat_numeral of_nat_power)
  moreover have "(2::rat) ^ 53 < 2 ^ 1024 - 2 ^ 970"
    by simp
  ultimately have small: "\<not> 2 ^ 1024 - 2 ^ 970 \<le> a"
    by linarith
  have "pow_int 2 (- 1022) \<le> 1"
    by (simp add: pow_int_def)
  then have tiny: "\<not> a < pow_int 2 (- 1022)"
    using one_le by linarith
  define u where "u = pow_int 2 (max (binade a) (- 1022) - 52)"
  have u_pos: "0 < u"
    unfolding u_def by (rule pow_int_pos)
  have e: "max (binade a) (- 1022) - 52 = int f - 53"
    using binade f_pos by simp
  have "\<exists>z. a / u = of_int z"
  proof (cases "f \<le> 52")
    case True
    then have "u = 1 / 2 ^ (53 - f)"
      unfolding u_def e by (simp add: pow_int_def nat_diff_distrib)
    then have "a / u = of_int (int m * 2 ^ (53 - f))"
      by (simp add: a_m)
    then show ?thesis ..
  next
    case False
    then have "f = 53 \<or> f = 54"
      using f_le by arith
    then show ?thesis
    proof
      assume "f = 53"
      then have "u = 1"
        unfolding u_def e by (simp add: pow_int_def)
      then have "a / u = of_int (int m)"
        by (simp add: a_m)
      then show ?thesis ..
    next
      assume f: "f = 54"
      then have "u = 2"
        unfolding u_def e by (simp add: pow_int_def)
      moreover have "m = 2 ^ 53"
        using lo m_le f by simp
      ultimately have "a / u = of_int (2 ^ 52)"
        by (simp add: a_m)
      then show ?thesis ..
    qed
  qed
  then obtain z where z: "a / u = of_int z" ..
  have "round_half_even (a / u) = z"
    by (simp only: z round_half_even_int)
  then have "of_int (round_half_even (a / u)) * u = a / u * u"
    by (simp only: z)
  then have "of_int (round_half_even (a / u)) * u = a"
    using u_pos by simp
  moreover have "pow_int 2 (binade a - 52) = u"
    unfolding u_def using binade f_pos by simp
  ultimately have "to_double (of_int k) = Inr (if rat_of_int k < 0 then - a else a)"
    using False small tiny
    by (simp add: to_double_def a_def [symmetric] u_def [symmetric] Let_def)
  then show ?thesis
    by (simp add: a_def abs_if)
qed

lemma number_restored_long:
  assumes "- (2 ^ 63) \<le> k" and "k < 2 ^ 63" and "to_double (of_int k) = Inr (of_int k)"
  shows "number_restored (of_int k)"
  using assms
  by (simp add: number_restored_def getRepresentation.simps makeNumber_def static_cast_long_int
      stod_def strtod_decimal_long)

lemma number_restored_integer: "\<bar>k\<bar> \<le> 2 ^ 53 \<Longrightarrow> number_restored (of_int k)"
proof (rule number_restored_long)
  assume k: "\<bar>k\<bar> \<le> 2 ^ 53"
  then show "- (2 ^ 63) \<le> k" and "k < 2 ^ 63"
    by simp_all
  show "to_double (of_int k) = Inr (of_int k)"
    using k by (rule to_double_integer)
qed

lemma scan_digits_then:
  assumes "\<forall>c\<in>set ds. isdigit c" and "\<not> isdigit c"
  shows "takeWhile isdigit (ds @ c # rest) = ds" and "dropWhile isdigit (ds @ c # rest) = c # rest"
  using assms by (simp_all add: takeWhile_tail takeWhile_eq_all_conv dropWhile_append3)

lemma strtod_decimal_ld:
  assumes "x * 1000000 \<in> \<int>"
  shows "strtod_decimal (to_string_ld x) = Some x"
proof -
  define M where "M = nat (round_half_even (\<bar>x\<bar> * 1000000))"
  define ip where "ip = digits (M div 1000000)"
  define fr where "fr = replicate (6 - length (digits (M mod 1000000))) CHR ''0'' @ digits (M mod 1000000)"
  have "\<bar>x * 1000000\<bar> \<in> \<int>"
    using assms by (rule Ints_abs)
  then obtain z where z: "\<bar>x\<bar> * 1000000 = of_int z"
    by (auto simp: abs_mult elim: Ints_cases)
  have "0 \<le> \<bar>x\<bar> * 1000000"
    by simp
  then have z_nonneg: "0 \<le> z"
    unfolding z by simp
  have "M = nat z"
    by (simp only: M_def z round_half_even_int)
  then have M: "rat_of_nat M = \<bar>x\<bar> * 1000000"
    using z_nonneg z by simp
  have "length (digits (M mod 1000000)) \<le> 6"
    by (rule length_digits) simp_all
  then have len: "length fr = 6"
    by (simp add: fr_def)
  have ip_digits: "\<forall>c\<in>set ip. isdigit c"
    unfolding ip_def by (rule all_isdigit_digits)
  have zero: "isdigit CHR ''0''"
    by (simp add: isdigit_def)
  have fr_digits: "\<forall>c\<in>set fr. isdigit c"
    using all_isdigit_digits [of "M mod 1000000"] zero by (auto simp: fr_def)
  have point: "\<not> isdigit CHR ''.''"
    by (simp add: isdigit_def)
  have ip_ne: "ip \<noteq> []"
    by (simp add: ip_def)
  have hd_ip: "hd ip \<noteq> CHR ''-''" "hd ip \<noteq> CHR ''+''"
    using hd_digits [of "M div 1000000"] by (auto simp: isdigit_def ip_def)
  have scan: "takeWhile isdigit (ip @ CHR ''.'' # fr) = ip"
    "dropWhile isdigit (ip @ CHR ''.'' # fr) = CHR ''.'' # fr"
    using ip_digits point by (rule scan_digits_then)+
  have scan_fr: "takeWhile isdigit fr = fr" "dropWhile isdigit fr = []"
    using fr_digits by (simp_all add: takeWhile_eq_all_conv)
  have "decimal_value (ip @ fr) = M div 1000000 * 1000000 + M mod 1000000"
    by (simp add: decimal_value_append len)
      (simp add: fr_def ip_def decimal_value_append decimal_value_zeros decimal_value_digits)
  then have val: "decimal_value (ip @ fr) = M"
    by simp
  have shape: "to_string_ld x = (if x < 0 then ''-'' else '''') @ ip @ CHR ''.'' # fr"
    by (simp add: to_string_ld_def Let_def M_def [symmetric] ip_def fr_def)
  show ?thesis
  proof (cases "x < 0")
    case True
    then have "to_string_ld x = CHR ''-'' # ip @ CHR ''.'' # fr"
      using shape by simp
    then show ?thesis
      using True
      by (simp add: strtod_decimal_def Let_def scan scan_fr ip_ne exponent_part_def pow_int_def
          val M len)
  next
    case False
    then have "to_string_ld x = ip @ CHR ''.'' # fr"
      using shape by simp
    then show ?thesis
      using False
      by (simp add: strtod_decimal_def Let_def scan scan_fr ip_ne hd_ip exponent_part_def
          pow_int_def val M len)
  qed
qed

lemma number_restored_six_places:
  assumes "x * 1000000 \<in> \<int>" and "\<bar>x\<bar> < 2 ^ 63" and "to_double x = Inr x"
  shows "number_restored x"
proof (cases "x \<in> \<int>")
  case True
  then obtain k where k: "x = of_int k"
    by (auto elim: Ints_cases)
  have "rat_of_int \<bar>k\<bar> < rat_of_int (2 ^ 63)"
    using assms(2) k by simp
  then have "\<bar>k\<bar> < 2 ^ 63"
    by (simp only: of_int_less_iff)
  then have "- (2 ^ 63) \<le> k" and "k < 2 ^ 63"
    by simp_all
  then show ?thesis
    unfolding k using assms(3) [unfolded k] by (rule number_restored_long)
next
  case False
  have "- (2 ^ 63) - 1 < x" and "x < 2 ^ 63"
    using assms(2) by simp_all
  with False obtain t where "static_cast_long x = Inr t" and "x - of_int t \<noteq> 0"
    using static_cast_long_frac by blast
  then show ?thesis
    using assms(1,3)
    by (simp add: number_restored_def getRepresentation.simps makeNumber_def stod_def
        strtod_decimal_ld)
qed

section \<open>The claims\<close>

text \<open>
  C2. Empty containers. The claim: for every indent width, also 4, an empty Array renders
  as \<open>[]\<close> and an empty Object as \<open>{}\<close>, with no newline. The code appends the newline
  before the closing bracket whenever \<open>indent > 0\<close>, whether or not the loop ran: at indent
  4 the texts are \<open>[\<newline>]\<close> and \<open>{\<newline>}\<close>.
\<close>

theorem empty_containers_indent4:
  "getRepresentation (makeArray []) 4 0 = Inr ''[\<newline>]''
   \<and> getRepresentation (makeArray []) 4 0 \<noteq> Inr ''[]''
   \<and> getRepresentation (makeObject []) 4 0 = Inr ''{\<newline>}''
   \<and> getRepresentation (makeObject []) 4 0 \<noteq> Inr ''{}''"
  by (simp add: value_eval)

text \<open>
  C2 as the code has it: at depth 0 (the default) an empty container renders as \<open>[]\<close> or
  \<open>{}\<close> when the indent width is not positive, and with a newline between the brackets
  when it is positive; at indent width 0 the text is \<open>[]\<close> or \<open>{}\<close> at every depth.
\<close>

theorem empty_containers_render:
  "getRepresentation (makeArray []) indent 0 = Inr (if 0 < indent then ''[\<newline>]'' else ''[]'')
   \<and> getRepresentation (makeObject []) indent 0 = Inr (if 0 < indent then ''{\<newline>}'' else ''{}'')
   \<and> getRepresentation (makeArray []) 0 depth = Inr ''[]''
   \<and> getRepresentation (makeObject []) 0 depth = Inr ''{}''"
  by (simp add: value_eval)

text \<open>
  C4. Error flag: \<open>parse("{}")\<close> returns an empty Object and \<open>isOK()\<close> is true;
  \<open>parse("[1 2]")\<close> returns the Array holding only the Number 1 and \<open>isOK()\<close> is false, the
  loop having stopped at the \<open>2\<close> that stands where a comma was expected.
\<close>

theorem error_flag_examples:
  "parse (new_Parser ''{}'') =
     Inr (makeObject [],
          \<lparr>content = ''{}'', currIdx = 2, currChar = CHR ''}'', currLine = 1, isOk = True,
           cout = []\<rparr>)
   \<and> isOK (final (parse (new_Parser ''{}'')))
   \<and> parse (new_Parser ''[1 2]'') =
     Inr (makeArray [makeNumber 1],
          \<lparr>content = ''[1 2]'', currIdx = 3, currChar = CHR ''2'', currLine = 1, isOk = False,
           cout = [''[ERROR] At line 1: Expected '' @ quoted CHR '']'' @ '' for array end'' @ [CHR 0x0A]]\<rparr>)
   \<and> \<not> isOK (final (parse (new_Parser ''[1 2]'')))"
  by (simp add: parser_eval stod_eval value_eval)

text \<open>
  C6. \<open>parseString\<close> is to report an error when the input ends before a closing quote.
  On the input that consists of one quote character it does not: \<open>advance\<close> leaves
  \<open>currChar\<close> as it is at the end of the input, so \<open>consume\<close> finds the opening quote once
  more and takes it for the closing one. The parse returns the empty String, \<open>isOK()\<close> is
  true and nothing is written.
\<close>

theorem lone_quote_parses_without_error:
  "parse (new_Parser [CHR 0x22]) =
     Inr (makeString [],
          \<lparr>content = [CHR 0x22], currIdx = 2, currChar = CHR 0x22, currLine = 1, isOk = True,
           cout = []\<rparr>)
   \<and> isOK (final (parse (new_Parser [CHR 0x22])))"
  by (simp add: parser_eval value_eval)

text \<open>
  C7. Indexed access. The claim: an index out of bounds fails with IndexOutOfRange. The
  code indexes the vector with \<open>operator[]\<close>, which checks nothing: on the empty Array,
  index 0 is undefined behaviour and no exception is thrown.
\<close>

theorem index_out_of_bounds_unchecked:
  "index_int (makeArray []) 0 = Inl undefined_behaviour
   \<and> index_int (makeArray []) 0 \<noteq> Inl out_of_range"
  by (simp add: index_int_def value_eval)

text \<open>
  C7 as the code has it: an index within bounds gives element \<open>i\<close>, for reading and for
  assignment through the reference; any other index is undefined behaviour.
\<close>

theorem index_int_in_bounds:
  "(0 \<le> i \<and> i < int (length xs) \<longrightarrow>
      index_int (makeArray xs) i = Inr (xs ! nat i)
      \<and> assign_index (makeArray xs) i x = Inr (makeArray (xs[nat i := x])))
   \<and> (\<not> (0 \<le> i \<and> i < int (length xs)) \<longrightarrow>
      index_int (makeArray xs) i = Inl undefined_behaviour
      \<and> assign_index (makeArray xs) i x = Inl undefined_behaviour)"
  by (simp add: index_int_def assign_index_def makeArray_def)

theorem index_int_in_bounds_witness:
  "index_int (makeArray [makeNull, makeNumber 7]) 1 = Inr (makeNumber 7)
   \<and> assign_index (makeArray [makeNull, makeNumber 7]) 1 makeNull = Inr (makeArray [makeNull, makeNull])
   \<and> index_int (makeArray [makeNull, makeNumber 7]) 2 = Inl undefined_behaviour
   \<and> index_int (makeArray [makeNull, makeNumber 7]) (- 1) = Inl undefined_behaviour"
  using index_int_in_bounds [of 1 "[makeNull, makeNumber 7]" makeNull]
    index_int_in_bounds [of 2 "[makeNull, makeNumber 7]" makeNull]
    index_int_in_bounds [of "- 1" "[makeNull, makeNumber 7]" makeNull]
  by simp

text \<open>
  C9. \<open>parse()\<close> is to return for every input without letting an exception out. Every
  function of the parser terminates (the definitions above are total), but on the input
  \<open>-\<close> the scanner accepts the sign, \<open>std::stod\<close> finds no digit and throws
  \<open>std::invalid_argument\<close>, and the handler of \<open>parseNumber\<close> catches \<open>std::out_of_range\<close>
  only: the exception leaves \<open>parse()\<close>.
\<close>

theorem lone_minus_throws:
  "parse (new_Parser ''-'') =
     Inl (invalid_argument,
          \<lparr>content = ''-'', currIdx = 1, currChar = CHR ''-'', currLine = 1, isOk = True,
           cout = []\<rparr>)"
  by (simp add: parser_eval stod_eval value_eval)

text \<open>
  C10. Empty input: the constructor's \<open>advance\<close> finds no character, \<open>currChar\<close> keeps its
  initial \<open>\0\<close>, \<open>parseElement\<close> falls through to the error report, and \<open>parse()\<close> returns
  a Value of type Unknown with \<open>isOK()\<close> false.
\<close>

theorem empty_input_is_an_error:
  "parse (new_Parser '''') =
     Inr (Value_default,
          \<lparr>content = '''', currIdx = 0, currChar = CHR 0x00, currLine = 1, isOk = False,
           cout = [''[ERROR] At line 1: Unexpected character: '' @ quoted (CHR 0x00) @ [CHR 0x0A]]\<rparr>)
   \<and> getType Value_default = ValueType_Unknown
   \<and> \<not> isOK (final (parse (new_Parser '''')))"
  by (simp add: parser_eval value_eval)

text \<open>
  C3. Number rendering. The claim: an integral value renders as an integer literal, any
  other value as \<open>3.5\<close> renders, that is as \<open>"3.5"\<close>. \<open>std::to_string(long double)\<close> writes
  six digits after the point, so 3.5 renders as \<open>3.500000\<close>; and the integral value
  \<open>10^30\<close> does not fit the \<open>long\<close> it is cast to, which is undefined behaviour.
\<close>

theorem number_rendering_examples:
  "getRepresentation (makeNumber (7 / 2)) 0 0 = Inr ''3.500000''
   \<and> getRepresentation (makeNumber (7 / 2)) 0 0 \<noteq> Inr ''3.5''
   \<and> getRepresentation (makeNumber (10 ^ 30)) 0 0 = Inl undefined_behaviour"
  by (simp add: getRepresentation.simps makeNumber_def number_eval)

text \<open>
  C3 as the code has it: an integral value that fits a \<open>long\<close> renders as its integer
  literal, with no decimal point; a value with a fractional part whose truncation fits a
  \<open>long\<close> renders as \<open>std::to_string(long double)\<close> writes it: a sign if negative, the
  integer digits, the point and exactly six digits.
\<close>

theorem number_rendering:
  "(- (2 ^ 63) \<le> n \<and> n < 2 ^ 63 \<longrightarrow>
      getRepresentation (makeNumber (of_int n)) indent depth = Inr (to_string_long n)
      \<and> CHR ''.'' \<notin> set (to_string_long n))
   \<and> (x \<notin> \<int> \<and> - (2 ^ 63) - 1 < x \<and> x < 2 ^ 63 \<longrightarrow>
      getRepresentation (makeNumber x) indent depth = Inr (to_string_ld x)
      \<and> (\<exists>ip fr. to_string_ld x = (if x < 0 then ''-'' else '''') @ ip @ ''.'' @ fr
            \<and> length fr = 6 \<and> ip \<noteq> [] \<and> set (ip @ fr) \<subseteq> set ''0123456789''))"
proof (intro conjI impI)
  assume n: "- (2 ^ 63) \<le> n \<and> n < 2 ^ 63"
  then show "getRepresentation (makeNumber (of_int n)) indent depth = Inr (to_string_long n)"
    by (simp add: getRepresentation.simps makeNumber_def static_cast_long_int)
  show "CHR ''.'' \<notin> set (to_string_long n)"
    by (rule no_point_in_to_string_long)
next
  assume x: "x \<notin> \<int> \<and> - (2 ^ 63) - 1 < x \<and> x < 2 ^ 63"
  then obtain t where "static_cast_long x = Inr t" "x - of_int t \<noteq> 0"
    using static_cast_long_frac [of x] by blast
  then show "getRepresentation (makeNumber x) indent depth = Inr (to_string_ld x)"
    by (simp add: getRepresentation.simps makeNumber_def)
  show "\<exists>ip fr. to_string_ld x = (if x < 0 then ''-'' else '''') @ ip @ ''.'' @ fr
            \<and> length fr = 6 \<and> ip \<noteq> [] \<and> set (ip @ fr) \<subseteq> set ''0123456789''"
    by (rule to_string_ld_shape)
qed

theorem number_rendering_witness:
  "getRepresentation (makeNumber 3) 0 0 = Inr ''3''
   \<and> getRepresentation (makeNumber (7 / 2)) 0 0 = Inr ''3.500000''
   \<and> getRepresentation (makeNumber (- 7 / 2)) 4 1 = Inr ''-3.500000''"
  using number_rendering [of 3 0 0 "7 / 2"] number_rendering [of 3 4 1 "- 7 / 2"]
  by (simp add: getRepresentation.simps makeNumber_def number_eval Ints_iff_floor ceiling_def)

text \<open>
  C5. Numeric overflow is not fatal. For every input that starts with a numeric literal
  (a text the scanner takes whole: it ends the input or a character that is not a number
  character follows) for which \<open>std::stod\<close> reports \<open>std::out_of_range\<close>, \<open>parse()\<close> returns
  the Number 0, writes the overflow warning and nothing else, and \<open>isOK()\<close> is still true.
\<close>

theorem overflow_is_not_fatal:
  assumes "numeric_literal t" and "stod t = Inl out_of_range"
    and "rest = [] \<or> \<not> numberChar (hd rest)"
  shows "parse (new_Parser (t @ rest)) =
           Inr (makeNumber 0,
                \<lparr>content = t @ rest, currIdx = int (length t),
                 currChar = (if rest = [] then last t else hd rest), currLine = 1, isOk = True,
                 cout = [''[WARNING] At line 1: number overflow'' @ [CHR 0x0A]]\<rparr>)"
proof -
  let ?p = "\<lparr>content = t @ rest, currIdx = 0, currChar = hd (t @ rest), currLine = 1, isOk = True,
             cout = []\<rparr>"
  have t: "t \<noteq> []" "hd t = CHR ''+'' \<or> hd t = CHR ''-'' \<or> isdigit (hd t)"
    "\<forall>c\<in>set t. numberChar c" "count_list t CHR ''.'' \<le> 1" "count_list t CHR ''e'' \<le> 1"
    using assms(1) by (simp_all add: numeric_literal_def list_all_iff)
  have start: "new_Parser (t @ rest) = at_index ?p 0"
    using t(1) by (simp add: new_Parser_at_index)
  have flag: "(at_index ?p 0)\<lparr>isOk := True\<rparr> = at_index ?p 0"
    by (simp add: at_index_def)
  have "content ?p = [] @ hd t # (tl t @ rest)"
    using t(1) by simp
  then have "currChar (at_index ?p (length ([] :: string))) = hd t"
    by (rule currChar_split)
  then have "parseElement (at_index ?p 0) = parseNumber (at_index ?p 0)"
    using t(2) by (intro number_start_dispatch) simp
  moreover have "content ?p = [] @ t @ rest"
    by simp
  then have "parseNumber (at_index ?p (length ([] :: string))) =
      (case stod t of
         Inr d \<Rightarrow> Inr (makeNumber d, at_index ?p (length ([] :: string) + length t))
       | Inl e \<Rightarrow>
           if e = out_of_range
           then Inr (makeNumber 0,
                     at_index (?p\<lparr>cout := cout ?p @ [''[WARNING] At line '' @ to_string_long (currLine ?p)
                                                @ '': number overflow'' @ [CHR 0x0A]]\<rparr>)
                       (length ([] :: string) + length t))
           else Inl (e, at_index ?p (length ([] :: string) + length t)))"
    using t(3,4,5) assms(3) by (rule parseNumber_at)
  ultimately have "parseElement (at_index ?p 0) =
      Inr (makeNumber 0,
           at_index (?p\<lparr>cout := [''[WARNING] At line 1: number overflow'' @ [CHR 0x0A]]\<rparr>) (length t))"
    using assms(2) by (simp add: to_string_long_def digits_small)
  then show ?thesis
    using start flag nth_at_split [OF t(1), of rest]
    by (simp add: parse_def at_index_def)
qed

theorem overflow_is_not_fatal_witness:
  "parse (new_Parser ''1e309'') =
     Inr (makeNumber 0,
          \<lparr>content = ''1e309'', currIdx = 5, currChar = CHR ''9'', currLine = 1, isOk = True,
           cout = [''[WARNING] At line 1: number overflow'' @ [CHR 0x0A]]\<rparr>)
   \<and> numeric_literal ''1e309'' \<and> stod ''1e309'' = Inl out_of_range"
proof -
  have a: "numeric_literal ''1e309''"
    by (simp add: numeric_literal_def numberChar_def isdigit_def)
  have b: "stod ''1e309'' = Inl out_of_range"
    by (simp add: stod_eval)
  show ?thesis
    using overflow_is_not_fatal [OF a b, of "[]"] a b by simp
qed

text \<open>
  C8. Bare keys. The claim: where the character at a key position is not a quote, the
  parse reports an error, because \<open>parseString\<close> errors when it does not start at a quote.
  \<open>parseString\<close> only skips the opening quote if there is one; it then scans to the next
  quote wherever it started. On the input \<open>{a":1}\<close> the key position holds \<open>a\<close>, the scan
  ends at the quote after it, and the parse returns the Object with the key \<open>a\<close> and no
  error.
\<close>

theorem bare_key_parses_without_error:
  "parse (new_Parser (''{a'' @ [CHR 0x22] @ '':1}'')) =
     Inr (makeObject [(''a'', makeNumber 1)],
          \<lparr>content = ''{a'' @ [CHR 0x22] @ '':1}'', currIdx = 6, currChar = CHR ''}'', currLine = 1,
           isOk = True, cout = []\<rparr>)
   \<and> isOK (final (parse (new_Parser (''{a'' @ [CHR 0x22] @ '':1}''))))"
  by (simp add: parser_eval stod_eval value_eval)

text \<open>
  C8 as the code has it. \<open>objectLoop p object\<close> is the \<open>while\<close> loop of \<open>parseObject\<close> entered
  in state \<open>p\<close>; the key position is where \<open>skipWhitespace\<close> leaves the cursor. If the
  character there is not a quote and no quote follows in the rest of the input, the loop
  ends with the failure flag set (and the flag is never cleared afterwards: lemma
  \<open>failed_follows\<close> with \<open>follows_parse\<close>).
\<close>

theorem key_without_any_quote_is_an_error:
  assumes "synced p" and "\<not> isEOF p" and "currChar p \<noteq> CHR ''}''"
    and "currChar (skipWhitespace p) \<noteq> CHR 0x22"
    and "CHR 0x22 \<notin> set (drop (nat (currIdx (skipWhitespace p))) (content p))"
  shows "\<not> isOK (final (objectLoop p object))"
proof -
  let ?q = "skipWhitespace p"
  have q: "follows p ?q" by simp
  then have "synced ?q" "content ?q = content p"
    using assms(1) by (auto simp: follows_def)
  then have key: "\<not> isOk (final (parseString ?q))"
    using assms(4,5) by (intro parseString_without_quote) simp_all
  have skip: "\<not> isOk (skipWhitespace x)" if "\<not> isOk x" for x
    using failed_follows [OF follows_skipWhitespace that] .
  have adv: "\<not> isOk (advance x)" if "\<not> isOk x" for x
    using failed_follows [OF follows_advance that] .
  have elem: "\<not> isOk (final (parseElement x))" if "\<not> isOk x" for x
    using failed_follows [OF follows_parse(1) that] .
  have loop: "\<not> isOk (final (objectLoop x ob))" if "\<not> isOk x" for x ob
    using failed_follows [OF follows_parse(3) that] .
  show ?thesis
  proof (cases "parseString ?q")
    case (Inl e)
    then show ?thesis
      using assms(2,3) key by (subst objectLoop.simps) (simp add: isOK_def)
  next
    case (Inr b)
    obtain name p1 where b: "b = (name, p1)" by (cases b)
    have p1: "\<not> isOk p1" using key Inr b by simp
    let ?p2 = "skipWhitespace p1"
    have p2: "\<not> isOk ?p2" using p1 by (rule skip)
    show ?thesis
    proof (cases "currChar ?p2 \<noteq> CHR '':''")
      case True
      then show ?thesis
        using assms(2,3) Inr b by (subst objectLoop.simps) (simp add: isOK_def Let_def)
    next
      case False
      let ?p3 = "skipWhitespace (advance ?p2)"
      have p3: "\<not> isOk (final (parseElement ?p3))"
        by (rule elem [OF skip [OF adv [OF p2]]])
      show ?thesis
      proof (cases "parseElement ?p3")
        case (Inl e)
        then show ?thesis
          using assms(2,3) \<open>parseString ?q = Inr b\<close> b False p3
          by (subst objectLoop.simps) (simp add: isOK_def Let_def)
      next
        case (Inr c)
        obtain element p4 where c: "c = (element, p4)" by (cases c)
        have "\<not> isOk p4"
          using p3 Inr c by simp
        then have p4: "\<not> isOk (skipWhitespace p4)"
          by (rule skip)
        have "\<not> isOk (final (objectLoop (advance (skipWhitespace p4)) ob))" for ob
          by (rule loop [OF adv [OF p4]])
        then show ?thesis
          using assms(2,3) \<open>parseString ?q = Inr b\<close> b False Inr c p4
          by (subst objectLoop.simps) (simp add: isOK_def Let_def)
      qed
    qed
  qed
qed

theorem key_without_any_quote_witness:
  "\<not> isOK (final (objectLoop (advance (new_Parser ''{a:1}'')) (makeObject [])))
   \<and> parseObject (new_Parser ''{a:1}'') =
       (case objectLoop (advance (new_Parser ''{a:1}'')) (makeObject []) of
          Inl e \<Rightarrow> Inl e
        | Inr (object, p) \<Rightarrow>
            Inr (object, snd (consume p CHR ''}'' (''Expected '' @ quoted CHR ''}'' @ '' for object end''))))
   \<and> \<not> isOK (final (parse (new_Parser ''{a:1}'')))"
proof -
  let ?p = "advance (new_Parser ''{a:1}'')"
  have p: "?p = \<lparr>content = ''{a:1}'', currIdx = 1, currChar = CHR ''a'', currLine = 1, isOk = True, cout = []\<rparr>"
    by (simp add: parser_eval)
  have q: "skipWhitespace ?p = ?p"
    unfolding p by (simp add: parser_eval)
  have 1: "synced ?p" unfolding p by (simp add: synced_def)
  have 2: "\<not> isEOF ?p" unfolding p by (simp add: parser_eval)
  have 3: "currChar ?p \<noteq> CHR ''}''" unfolding p by simp
  have 4: "currChar (skipWhitespace ?p) \<noteq> CHR 0x22" unfolding q unfolding p by simp
  have 5: "CHR 0x22 \<notin> set (drop (nat (currIdx (skipWhitespace ?p))) (content ?p))"
    unfolding q unfolding p by simp
  have a: "\<not> isOK (final (objectLoop ?p (makeObject [])))"
    using 1 2 3 4 5 by (rule key_without_any_quote_is_an_error)
  have b: "parseObject (new_Parser ''{a:1}'') =
       (case objectLoop (advance (new_Parser ''{a:1}'')) (makeObject []) of
          Inl e \<Rightarrow> Inl e
        | Inr (object, p) \<Rightarrow>
            Inr (object, snd (consume p CHR ''}'' (''Expected '' @ quoted CHR ''}'' @ '' for object end''))))"
    by (subst parseObject.simps) (simp add: q, simp add: parser_eval)
  have c: "\<not> isOK (final (parse (new_Parser ''{a:1}'')))"
    by (simp add: parser_eval stod_eval value_eval)
  show ?thesis using a b c by simp
qed

text \<open>
  C1. Round trip. The claim: for every tree whose strings hold no quote and no backslash,
  parsing the compact rendering returns an equal tree. A Number that is not integral
  renders with six digits after the point, and what lies beyond them is lost: the Number
  \<open>2^-21\<close> renders as \<open>0.000000\<close>, which parses, with no error, to the Number 0.
\<close>

theorem round_trip_loses_small_fraction:
  "getRepresentation (makeNumber (1 / 2 ^ 21)) 0 0 = Inr ''0.000000''
   \<and> parse (new_Parser ''0.000000'') =
       Inr (makeNumber 0,
            \<lparr>content = ''0.000000'', currIdx = 8, currChar = CHR ''0'', currLine = 1,
             isOk = True, cout = []\<rparr>)
   \<and> makeNumber 0 \<noteq> makeNumber (1 / 2 ^ 21)
   \<and> \<not> same_tree (makeNumber (1 / 2 ^ 21)) (makeNumber 0)"
  by (simp add: getRepresentation.simps parser_eval value_eval number_eval stod_eval)

text \<open>
  C1 as the code has it. For a tree built by the six factories (the keys of an Object
  distinct, a Boolean holding 0 or 1), in which no key and no String holds a quote
  character and every Number is one that \<open>std::stod\<close> returns from its own rendering, the
  compact rendering exists, and \<open>parse\<close> on it returns a structurally equal tree (the
  entries of an Object compared by key, whatever the order in which the parsed Object
  enumerates them), with the whole text read, the error flag still set to true and
  nothing written to \<open>std::cout\<close>. Such Numbers are the integers of magnitude up to \<open>2^53\<close>
  (\<open>number_restored_integer\<close>) and the \<open>double\<close> values below \<open>2^63\<close> in magnitude with at
  most six digits after the point (\<open>number_restored_six_places\<close>), among others. A
  backslash in a String is no obstacle: neither the rendering nor the parser treats it
  specially.
\<close>

theorem compact_round_trip:
  assumes "round_trip_tree v"
  shows "\<exists>s w. getRepresentation v 0 0 = Inr s
           \<and> parse (new_Parser s) =
               Inr (w, \<lparr>content = s, currIdx = int (length s), currChar = last s, currLine = 1,
                        isOk = True, cout = []\<rparr>)
           \<and> same_tree v w"
proof -
  obtain s where s: "parses_as v (reparsed v) s"
    using parses_tree [OF assms] ..
  note s_ne = parses_asD(1) [OF s]
  let ?p = "\<lparr>content = s, currIdx = 0, currChar = hd s, currLine = 1, isOk = True, cout = []\<rparr>"
  have start: "new_Parser s = at_index ?p 0"
    using s_ne by (rule new_Parser_at_index)
  have flag: "(at_index ?p 0)\<lparr>isOk := True\<rparr> = at_index ?p 0"
    by (simp add: at_index_def)
  have "content ?p = [] @ s @ []"
    by simp
  then have "parseElement (at_index ?p (length ([] :: string))) =
      Inr (reparsed v, at_index ?p (length ([] :: string) + length s))"
    by (rule parses_asD(4) [OF s]) simp
  moreover have "parse (new_Parser s) = parseElement (at_index ?p 0)"
    by (simp only: parse_def start flag)
  ultimately have "parse (new_Parser s) = Inr (reparsed v, at_index ?p (length s))"
    by simp
  moreover have "at_index ?p (length s) =
      \<lparr>content = s, currIdx = int (length s), currChar = last s, currLine = 1, isOk = True,
       cout = []\<rparr>"
    using s_ne nth_at_split [of s "[]"] by (simp add: at_index_def)
  ultimately have "parse (new_Parser s) =
      Inr (reparsed v, \<lparr>content = s, currIdx = int (length s), currChar = last s, currLine = 1,
                        isOk = True, cout = []\<rparr>)"
    by simp
  moreover have "getRepresentation v 0 0 = Inr s"
    by (rule parses_asD(3) [OF s])
  moreover have "same_tree v (reparsed v)"
    using assms by (rule same_tree_reparsed)
  ultimately show ?thesis
    by blast
qed

theorem compact_round_trip_witness:
  "round_trip_tree
     (makeObject [(''a'', makeArray [makeNumber 1, makeNumber (1 / 2), makeString ''x y'',
                                    makeBoolean True, makeNull]),
                  (''b'', makeNumber (- 25))])
   \<and> getRepresentation
       (makeObject [(''a'', makeArray [makeNumber 1, makeNumber (1 / 2), makeString ''x y'',
                                      makeBoolean True, makeNull]),
                    (''b'', makeNumber (- 25))]) 0 0
     = Inr (''{'' @ [CHR 0x22] @ ''a'' @ [CHR 0x22] @ '':[1,0.500000,'' @ [CHR 0x22] @ ''x y''
              @ [CHR 0x22] @ '',true,null],'' @ [CHR 0x22] @ ''b'' @ [CHR 0x22] @ '':-25}'')
   \<and> (\<exists>w. parse (new_Parser (''{'' @ [CHR 0x22] @ ''a'' @ [CHR 0x22] @ '':[1,0.500000,''
                @ [CHR 0x22] @ ''x y'' @ [CHR 0x22] @ '',true,null],'' @ [CHR 0x22] @ ''b''
                @ [CHR 0x22] @ '':-25}''))
          = Inr (w, \<lparr>content = ''{'' @ [CHR 0x22] @ ''a'' @ [CHR 0x22] @ '':[1,0.500000,''
                      @ [CHR 0x22] @ ''x y'' @ [CHR 0x22] @ '',true,null],'' @ [CHR 0x22] @ ''b''
                      @ [CHR 0x22] @ '':-25}'',
                    currIdx = 42, currChar = CHR ''}'', currLine = 1, isOk = True, cout = []\<rparr>)
        \<and> same_tree
            (makeObject [(''a'', makeArray [makeNumber 1, makeNumber (1 / 2), makeString ''x y'',
                                           makeBoolean True, makeNull]),
                         (''b'', makeNumber (- 25))]) w)"
proof -
  let ?v = "makeObject [(''a'', makeArray [makeNumber 1, makeNumber (1 / 2), makeString ''x y'',
                                          makeBoolean True, makeNull]),
                        (''b'', makeNumber (- 25))]"
  have tree: "round_trip_tree ?v"
    by (simp add: number_restored_def getRepresentation.simps value_eval number_eval stod_eval)
  have repr: "getRepresentation ?v 0 0
     = Inr (''{'' @ [CHR 0x22] @ ''a'' @ [CHR 0x22] @ '':[1,0.500000,'' @ [CHR 0x22] @ ''x y''
              @ [CHR 0x22] @ '',true,null],'' @ [CHR 0x22] @ ''b'' @ [CHR 0x22] @ '':-25}'')"
    by (simp add: value_eval number_eval)
  obtain s w where "getRepresentation ?v 0 0 = Inr s"
    and "parse (new_Parser s) =
      Inr (w, \<lparr>content = s, currIdx = int (length s), currChar = last s, currLine = 1,
               isOk = True, cout = []\<rparr>)"
    and "same_tree ?v w"
    using compact_round_trip [OF tree] by blast
  with tree repr show ?thesis
    by auto
qed

end
